theory Spec2Isabelle
  imports Complex_Main "HOL-Library.Multiset" "HOL-Library.Sublist"
begin

section \<open>Strings and addresses\<close>

text \<open>
  Addresses are Python strings, compared after \<^verbatim>\<open>str.lower()\<close>. Ledger addresses are
  ASCII (\<^verbatim>\<open>0x\<close> followed by hexadecimal digits), so \<open>lower\<close> maps the 26 ASCII capitals
  to their small letters and leaves every other character as it is.
\<close>

definition lower_char :: "char \<Rightarrow> char" where
  "lower_char c =
     (case map_of (zip ''ABCDEFGHIJKLMNOPQRSTUVWXYZ'' ''abcdefghijklmnopqrstuvwxyz'') c of
        Some l \<Rightarrow> l
      | None \<Rightarrow> c)"

definition lower :: "string \<Rightarrow> string" where
  "lower s = map lower_char s"

section \<open>network\_expander.py: the known hot wallets and the deposit pattern\<close>

text \<open>
  A transaction is a JSON object of the block explorer. The record holds the fields the
  code reads, each after the default of its \<^verbatim>\<open>tx.get(key, default)\<close> and after
  \<^verbatim>\<open>int(...)\<close>: \<^verbatim>\<open>from\<close> and \<^verbatim>\<open>to\<close> (default the empty string), \<^verbatim>\<open>value\<close>,
  \<^verbatim>\<open>tokenDecimal\<close>, \<^verbatim>\<open>tokenSymbol\<close> and \<^verbatim>\<open>timeStamp\<close>.
\<close>

record tx =
  tx_from :: string
  tx_to :: string
  tx_value :: int
  tx_tokenDecimal :: nat
  tx_tokenSymbol :: string
  tx_timeStamp :: int

text \<open>\<^verbatim>\<open>KNOWN_EXCHANGE_HOT_WALLETS\<close>, the dictionary literal of the module.\<close>

definition KNOWN_EXCHANGE_HOT_WALLETS :: "(string \<times> string) list" where
  "KNOWN_EXCHANGE_HOT_WALLETS =
    [(''0x0d0707963952f2fba59dd06f2b425ace40b492fe'', ''Gate.io Deposit''),
     (''0x1c4b70a3968436b9a0a9cf5205c787eb81bb558c'', ''Gate.io Hot Wallet''),
     (''0x39f6a6c85d39d5abad8a398310c52e7c374f2ba3'', ''WhiteBIT Hot Wallet''),
     (''0x5a52e96bacdabb82fd05763e25335261b270efcb'', ''WhiteBIT''),
     (''0x17fbbd5bf41693e6bd534a1bc7ca412401d7ce6e'', ''Bybit Deposit''),
     (''0xf89d7b9c864f589bbf53a82105107622b35eaa40'', ''Bybit Hot Wallet''),
     (''0x28c6c06298d514db089934071355e5743bf21d60'', ''Binance 14''),
     (''0x21a31ee1afc51d94c2efccaa2092ad1028285549'', ''Binance''),
     (''0xdfd5293d8e347dfe59e90efd55b2956a1343963d'', ''Binance 8''),
     (''0x83c41363cbee0081dab75cb841fa24f3db46627e'', ''KuCoin Deposit''),
     (''0x1ab4973a48dc892cd9971ece8e01dcc7688f8f23'', ''Bitget Deposit''),
     (''0x46340b20830761efd32832a74d7169b29feb9758'', ''Huobi''),
     (''0x5041ed759dd4afc3a72b8192c143f72f4724081a'', ''OKX''),
     (''0x6262998ced04146fa42253a5c0af90ca02dfd2a3'', ''Crypto.com'')]"

definition known_wallet :: "string \<Rightarrow> string option" where
  "known_wallet a = map_of KNOWN_EXCHANGE_HOT_WALLETS a"

text \<open>
  The first loop of \<^verbatim>\<open>is_exchange_deposit_pattern\<close>: a transaction sent by the address
  is an outflow, otherwise one sent to it is an inflow, and any other is dropped. The
  result is the pair (inflows, outflows), each in the order of the input.
\<close>

fun split_flows :: "string \<Rightarrow> tx list \<Rightarrow> tx list \<times> tx list \<Rightarrow> tx list \<times> tx list" where
  "split_flows address [] (inflows, outflows) = (inflows, outflows)"
| "split_flows address (t # txs) (inflows, outflows) =
     (if lower (tx_from t) = address then split_flows address txs (inflows, outflows @ [t])
      else if lower (tx_to t) = address then split_flows address txs (inflows @ [t], outflows)
      else split_flows address txs (inflows, outflows))"

text \<open>
  \<^verbatim>\<open>destinations[dest] = destinations.get(dest, 0) + 1\<close> on a Python dictionary, which
  keeps its keys in the order of their first insertion: an association list in that order.
\<close>

fun dict_incr :: "(string \<times> nat) list \<Rightarrow> string \<Rightarrow> (string \<times> nat) list" where
  "dict_incr [] dest = [(dest, 1)]"
| "dict_incr ((k, c) # d) dest =
     (if k = dest then (k, c + 1) # d else (k, c) # dict_incr d dest)"

fun count_destinations :: "(string \<times> nat) list \<Rightarrow> tx list \<Rightarrow> (string \<times> nat) list" where
  "count_destinations destinations [] = destinations"
| "count_destinations destinations (t # outflows) =
     count_destinations (dict_incr destinations (lower (tx_to t))) outflows"

text \<open>
  \<^verbatim>\<open>max(destinations, key=destinations.get)\<close>: Python's \<^verbatim>\<open>max\<close> walks the keys in
  order and replaces the best one only by a strictly larger one.
\<close>

fun max_from :: "string \<times> nat \<Rightarrow> (string \<times> nat) list \<Rightarrow> string \<times> nat" where
  "max_from best [] = best"
| "max_from best (kc # d) = max_from (if snd best < snd kc then kc else best) d"

fun py_max_key :: "(string \<times> nat) list \<Rightarrow> string option" where
  "py_max_key [] = None"
| "py_max_key (kc # d) = Some (fst (max_from kc d))"

text \<open>
  \<^verbatim>\<open>is_exchange_deposit_pattern(address, txs)\<close> returns the pair
  \<^verbatim>\<open>(is_deposit, exchange_name)\<close>; the checks stand in the order of the source.
\<close>

definition is_exchange_deposit_pattern :: "string \<Rightarrow> tx list \<Rightarrow> bool \<times> string option" where
  "is_exchange_deposit_pattern address0 txs =
     (let address = lower address0 in
      if txs = [] then (False, None)
      else case known_wallet address of
        Some name \<Rightarrow> (True, Some name)
      | None \<Rightarrow>
         (let (inflows, outflows) = split_flows address txs ([], []) in
          if length inflows < 1 \<or> length inflows > 20 then (False, None)
          else if outflows = [] then (False, None)
          else case py_max_key (count_destinations [] outflows) of
            None \<Rightarrow> (False, None)
          | Some primary_dest \<Rightarrow>
             (case known_wallet primary_dest of
                Some name \<Rightarrow> (True, Some name)
              | None \<Rightarrow> (False, None))))"

section \<open>The deposit pattern in the words of the specification\<close>





section \<open>network\_expander.py: fetching and analysing an address\<close>

datatype response = Raised | Replied string "tx list"

type_synonym network = "string \<Rightarrow> string \<Rightarrow> response"

definition etherscan_request :: "network \<Rightarrow> string \<Rightarrow> string \<Rightarrow> tx list" where
  "etherscan_request net action address =
     (case net action address of
        Raised \<Rightarrow> []
      | Replied status result \<Rightarrow> if status = ''1'' then result else [])"

definition get_transactions :: "network \<Rightarrow> string \<Rightarrow> string \<Rightarrow> tx list" where
  "get_transactions net address tx_type =
     (if tx_type = ''normal'' then etherscan_request net ''txlist'' (lower address)
      else if tx_type = ''erc20'' then etherscan_request net ''tokentx'' (lower address)
      else [])"

record analysis =
  an_address :: string
  is_exchange_deposit :: bool
  exchange_name :: "string option"
  tx_count :: nat
  eth_in :: rat
  eth_out :: rat
  usdt_in :: rat
  usdt_out :: rat
  connected_in :: "string list"
  connected_out :: "string list"
  first_tx :: int
  last_tx :: int

definition set_add :: "string list \<Rightarrow> string \<Rightarrow> string list" where
  "set_add xs x = (if x \<in> set xs then xs else xs @ [x])"

fun add_connected :: "string \<Rightarrow> tx list \<Rightarrow> string list \<times> string list \<Rightarrow> string list \<times> string list" where
  "add_connected address [] (cin, cout) = (cin, cout)"
| "add_connected address (t # txs) (cin, cout) =
     (let from_addr = lower (tx_from t);
          to_addr = lower (tx_to t)
      in add_connected address txs
           (if from_addr \<noteq> [] \<and> from_addr \<noteq> address then set_add cin from_addr else cin,
            if to_addr \<noteq> [] \<and> to_addr \<noteq> address then set_add cout to_addr else cout))"

definition eth_amount :: "tx \<Rightarrow> rat" where
  "eth_amount t = of_int (tx_value t) / 10 ^ 18"

definition token_amount :: "tx \<Rightarrow> rat" where
  "token_amount t = of_int (tx_value t) / 10 ^ tx_tokenDecimal t"

definition min_default :: "int list \<Rightarrow> int" where
  "min_default ts = (case ts of [] \<Rightarrow> 0 | t # rest \<Rightarrow> fold min rest t)"

definition max_default :: "int list \<Rightarrow> int" where
  "max_default ts = (case ts of [] \<Rightarrow> 0 | t # rest \<Rightarrow> fold max rest t)"

definition analyze_address :: "network \<Rightarrow> (string list \<Rightarrow> string list) \<Rightarrow> string \<Rightarrow> analysis" where
  "analyze_address net order address0 =
     (let address = lower address0;
          normal_txs = get_transactions net address ''normal'';
          erc20_txs = get_transactions net address ''erc20'';
          all_txs = normal_txs @ erc20_txs;
          (is_deposit, name) = is_exchange_deposit_pattern address all_txs;
          (cin, cout) =
             add_connected address erc20_txs (add_connected address normal_txs ([], []))
      in \<lparr>an_address = address,
          is_exchange_deposit = is_deposit,
          exchange_name = name,
          tx_count = length normal_txs + length erc20_txs,
          eth_in = sum_list (map eth_amount (filter (\<lambda>t. lower (tx_to t) = address) normal_txs)),
          eth_out = sum_list (map eth_amount (filter (\<lambda>t. lower (tx_from t) = address) normal_txs)),
          usdt_in = sum_list (map token_amount
             (filter (\<lambda>t. lower (tx_to t) = address \<and> tx_tokenSymbol t = ''USDT'') erc20_txs)),
          usdt_out = sum_list (map token_amount
             (filter (\<lambda>t. lower (tx_from t) = address \<and> tx_tokenSymbol t = ''USDT'') erc20_txs)),
          connected_in = order cin,
          connected_out = order cout,
          first_tx = min_default (map tx_timeStamp all_txs),
          last_tx = max_default (map tx_timeStamp all_txs)\<rparr>)"

datatype touchpoint =
    Deposit_Touchpoint string "string option" int rat rat
  | Direct_Touchpoint string string int string

record node =
  depth :: int
  analysis :: analysis

record bfs_state =
  visited :: "string set"
  queue :: "(string \<times> int) list"
  graph :: "string \<rightharpoonup> node"
  kyc_touchpoints :: "touchpoint list"

fun init_seeds :: "string list \<Rightarrow> bfs_state \<Rightarrow> bfs_state" where
  "init_seeds [] s = s"
| "init_seeds (addr # seed_addresses) s =
     init_seeds seed_addresses
       (s\<lparr>queue := queue s @ [(lower addr, 0)], visited := insert (lower addr) (visited s)\<rparr>)"

definition next_addrs :: "string \<Rightarrow> analysis \<Rightarrow> string list" where
  "next_addrs direction a =
     (if direction = ''in'' \<or> direction = ''both'' then connected_in a else []) @
     (if direction = ''out'' \<or> direction = ''both'' then connected_out a else [])"

fun enqueue_next :: "string \<Rightarrow> int \<Rightarrow> string list \<Rightarrow> bfs_state \<Rightarrow> bfs_state" where
  "enqueue_next address d [] s = s"
| "enqueue_next address d (next_addr # rest) s =
     (if next_addr \<notin> visited s then
        (case known_wallet next_addr of
           Some name \<Rightarrow>
             enqueue_next address d rest
               (s\<lparr>kyc_touchpoints := kyc_touchpoints s @ [Direct_Touchpoint address name d next_addr]\<rparr>)
         | None \<Rightarrow>
             enqueue_next address d rest
               (s\<lparr>visited := insert next_addr (visited s), queue := queue s @ [(next_addr, d + 1)]\<rparr>))
      else enqueue_next address d rest s)"

definition bfs_step ::
  "network \<Rightarrow> (string list \<Rightarrow> string list) \<Rightarrow> int \<Rightarrow> string \<Rightarrow> bfs_state \<Rightarrow> bfs_state" where
  "bfs_step net order max_depth direction s =
     (case queue s of
        [] \<Rightarrow> s
      | (address, d) # rest \<Rightarrow>
          (let a = analyze_address net order address;
               s1 = s\<lparr>queue := rest, graph := (graph s)(address \<mapsto> \<lparr>depth = d, analysis = a\<rparr>)\<rparr>;
               s2 = (if is_exchange_deposit a
                     then s1\<lparr>kyc_touchpoints := kyc_touchpoints s1 @
                            [Deposit_Touchpoint address (exchange_name a) d
                               (usdt_in a + usdt_out a) (eth_in a + eth_out a)]\<rparr>
                     else s1)
           in if d \<ge> max_depth then s2
              else enqueue_next address d (next_addrs direction a) s2))"

function bfs_loop ::
  "network \<Rightarrow> (string list \<Rightarrow> string list) \<Rightarrow> int \<Rightarrow> string \<Rightarrow> bfs_state \<Rightarrow> bfs_state" where
  "bfs_loop net order max_depth direction s =
     (if queue s = [] then s
      else bfs_loop net order max_depth direction (bfs_step net order max_depth direction s))"
  by pat_completeness auto
termination
proof (relation "inv_image (mult less_than)
    (\<lambda>(net, order, max_depth, direction, s). mset (map (\<lambda>e. nat (max_depth - snd e)) (queue s)))")
  show "wf (inv_image (mult less_than)
    (\<lambda>(net, order, max_depth, direction, s). mset (map (\<lambda>e. nat (max_depth - snd e)) (queue s))))"
    by (simp add: wf_mult)
next
  fix net :: network and order :: "string list \<Rightarrow> string list"
    and max_depth :: int and direction :: string and s :: bfs_state
  assume ne: "queue s \<noteq> []"
  obtain address d rest where q: "queue s = (address, d) # rest"
    using ne by (cases "queue s") auto
  let ?w = "\<lambda>e :: string \<times> int. nat (max_depth - snd e)"
  have enq: "\<exists>new. queue (enqueue_next address d xs t) = queue t @ map (\<lambda>x. (x, d + 1)) new"
    for xs t
  proof (induction xs arbitrary: t)
    case Nil
    show ?case by (rule exI [of _ "[]"]) simp
  next
    case (Cons x xs)
    show ?case
    proof (cases "x \<notin> visited t \<and> known_wallet x = None")
      case True
      let ?t = "t\<lparr>visited := insert x (visited t), queue := queue t @ [(x, d + 1)]\<rparr>"
      from Cons.IH [of ?t] obtain new where
        "queue (enqueue_next address d xs ?t) = queue ?t @ map (\<lambda>x. (x, d + 1)) new" ..
      then have "queue (enqueue_next address d (x # xs) t) = queue t @ map (\<lambda>x. (x, d + 1)) (x # new)"
        using True by simp
      then show ?thesis ..
    next
      case False
      show ?thesis
      proof (cases "x \<in> visited t")
        case True
        then show ?thesis using Cons.IH [of t] by simp
      next
        case unseen: False
        with False obtain name where k: "known_wallet x = Some name" by auto
        let ?t = "t\<lparr>kyc_touchpoints := kyc_touchpoints t @ [Direct_Touchpoint address name d x]\<rparr>"
        from Cons.IH [of ?t] show ?thesis using unseen k by simp
      qed
    qed
  qed
  have "\<exists>new. queue (bfs_step net order max_depth direction s) = rest @ map (\<lambda>x. (x, d + 1)) new \<and>
          (new \<noteq> [] \<longrightarrow> d < max_depth)"
  proof (cases "d \<ge> max_depth")
    case True
    then have "queue (bfs_step net order max_depth direction s) = rest @ map (\<lambda>x. (x, d + 1)) []"
      by (simp add: bfs_step_def q Let_def)
    then show ?thesis by blast
  next
    case False
    let ?a = "analyze_address net order address"
    let ?s1 = "s\<lparr>queue := rest, graph := (graph s)(address \<mapsto> \<lparr>depth = d, analysis = ?a\<rparr>)\<rparr>"
    let ?s2 = "if is_exchange_deposit ?a
       then ?s1\<lparr>kyc_touchpoints := kyc_touchpoints ?s1 @
              [Deposit_Touchpoint address (exchange_name ?a) d
                 (usdt_in ?a + usdt_out ?a) (eth_in ?a + eth_out ?a)]\<rparr>
       else ?s1"
    have s2: "queue ?s2 = rest" by simp
    from enq [of "next_addrs direction ?a" ?s2] obtain new where
      "queue (enqueue_next address d (next_addrs direction ?a) ?s2) = queue ?s2 @ map (\<lambda>x. (x, d + 1)) new" ..
    then have "queue (bfs_step net order max_depth direction s) = rest @ map (\<lambda>x. (x, d + 1)) new"
      using False s2 by (simp add: bfs_step_def q Let_def)
    then show ?thesis using False by auto
  qed
  then obtain new where
    st: "queue (bfs_step net order max_depth direction s) = rest @ map (\<lambda>x. (x, d + 1)) new"
    and lt: "new \<noteq> [] \<longrightarrow> d < max_depth" by blast
  have "(mset (map ?w rest) + mset (map ?w (map (\<lambda>x. (x, d + 1)) new)),
         mset (map ?w rest) + {#?w (address, d)#}) \<in> mult less_than"
  proof (rule one_step_implies_mult)
    show "{#?w (address, d)#} \<noteq> {#}" by simp
    show "\<forall>k\<in>#mset (map ?w (map (\<lambda>x. (x, d + 1)) new)).
            \<exists>j\<in>#{#?w (address, d)#}. (k, j) \<in> less_than"
      using lt by auto
  qed
  then show "((net, order, max_depth, direction, bfs_step net order max_depth direction s),
              (net, order, max_depth, direction, s))
        \<in> inv_image (mult less_than)
            (\<lambda>(net, order, max_depth, direction, s). mset (map (\<lambda>e. nat (max_depth - snd e)) (queue s)))"
    by (simp add: st q multiset.map_comp comp_def)
qed

record expansion =
  seed_addresses :: "string list"
  max_depth :: int
  direction :: string
  total_addresses_discovered :: nat
  touchpoints :: "touchpoint list"
  nodes_graph :: "string \<rightharpoonup> node"

definition bfs_init :: "string list \<Rightarrow> bfs_state" where
  "bfs_init seeds = init_seeds seeds \<lparr>visited = {}, queue = [], graph = Map.empty, kyc_touchpoints = []\<rparr>"

definition bfs_expand ::
  "network \<Rightarrow> (string list \<Rightarrow> string list) \<Rightarrow> string list \<Rightarrow> int \<Rightarrow> string \<Rightarrow> expansion" where
  "bfs_expand net order seeds md dir =
     (let s = bfs_loop net order md dir (bfs_init seeds)
      in \<lparr>seed_addresses = seeds, max_depth = md, direction = dir,
          total_addresses_discovered = card (visited s),
          touchpoints = kyc_touchpoints s,
          nodes_graph = graph s\<rparr>)"


section \<open>tools/multi\_hop\_tracer\_v2.py: tracing hops over the Blockscout API\<close>

text \<open>
  A Blockscout item, as the code reads it: \<^verbatim>\<open>value\<close> after \<^verbatim>\<open>int(...)\<close>, the hash of
  the \<^verbatim>\<open>to\<close> object (\<open>None\<close> when \<^verbatim>\<open>tx.get('to')\<close> is missing, null or empty),
  \<^verbatim>\<open>hash\<close> and \<^verbatim>\<open>timestamp\<close>. The API is a function from the address asked for to
  the items of the reply, \<open>None\<close> when the request raises;
  \<^verbatim>\<open>get_outgoing_transactions\<close> turns the exception into the empty list. The table
  \<^verbatim>\<open>KNOWN_ADDRESSES\<close> of the two tracer modules is a parameter \<open>known\<close>: its keys
  are blanked in the source. Amounts are exact rationals; the rounding of Python's
  floats is not modelled.
\<close>

record btx =
  btx_value :: int
  btx_to :: "string option"
  btx_hash :: string
  btx_timestamp :: string

type_synonym blockscout = "string \<Rightarrow> btx list option"

definition get_outgoing_transactions :: "blockscout \<Rightarrow> string \<Rightarrow> btx list" where
  "get_outgoing_transactions bs addr = (case bs addr of None \<Rightarrow> [] | Some items \<Rightarrow> items)"

record outgoing =
  o_to :: string
  o_eth :: rat
  o_hash :: string
  o_timestamp :: string

fun filter_outgoing :: "rat \<Rightarrow> btx list \<Rightarrow> outgoing list" where
  "filter_outgoing min_eth [] = []"
| "filter_outgoing min_eth (t # txs) =
     (let v = of_int (btx_value t) / 10 ^ 18 in
      if v \<ge> min_eth then
        (case btx_to t of
           Some to_addr \<Rightarrow>
             \<lparr>o_to = to_addr, o_eth = v, o_hash = btx_hash t, o_timestamp = btx_timestamp t\<rparr>
               # filter_outgoing min_eth txs
         | None \<Rightarrow> filter_outgoing min_eth txs)
      else filter_outgoing min_eth txs)"

record edge =
  e_from :: string
  e_to :: string
  e_eth :: rat
  e_hash :: string

record endpoint =
  ep_address :: string
  ep_label :: string
  ep_type :: string
  ep_eth :: rat
  ep_path :: "string list"

record totals =
  addresses_traced :: nat
  total_eth_tracked :: rat
  eth_to_exchanges :: rat
  eth_to_mixers :: rat
  eth_to_unknown :: rat

record node_info =
  ni_tx_count :: nat
  ni_outgoing_tracked :: nat
  ni_label :: "string option"

text \<open>
  The state of one run of \<^verbatim>\<open>trace_hops\<close>. Of the verbose output the model keeps the
  hop lines \<^verbatim>\<open>[Hop d] addr[:15]... (path len: n)\<close>, the only record of the depth at
  which an address is expanded.
\<close>

record trace_state =
  t_visited :: "string set"
  t_queue :: "(string \<times> int \<times> string list) list"
  t_nodes :: "string \<rightharpoonup> node_info"
  t_edges :: "edge list"
  t_endpoints :: "endpoint list"
  t_totals :: totals
  t_hops :: "(int \<times> string \<times> nat) list"

text \<open>
  \<^verbatim>\<open>any(x in label for x in ['Binance', 'Coinbase', 'Kraken', 'OKX', 'Bybit'])\<close>;
  \<open>sublist\<close> is the contiguous sublist, Python's \<^verbatim>\<open>in\<close> on strings.
\<close>

definition is_exchange_label :: "string \<Rightarrow> bool" where
  "is_exchange_label label =
     list_ex (\<lambda>x. sublist x label) [''Binance'', ''Coinbase'', ''Kraken'', ''OKX'', ''Bybit'']"

text \<open>The body of the loop over the outgoing transactions, for one of them.\<close>

definition follow_one ::
  "(string \<rightharpoonup> string) \<Rightarrow> int \<Rightarrow> string \<Rightarrow> int \<Rightarrow> string list \<Rightarrow> outgoing \<Rightarrow>
     trace_state \<Rightarrow> trace_state" where
  "follow_one known dlimit current_addr current_depth path tx_info s =
     (let to_addr = o_to tx_info;
          to_addr_lower = lower to_addr;
          v = o_eth tx_info;
          s1 = s\<lparr>t_totals := (t_totals s)\<lparr>total_eth_tracked := total_eth_tracked (t_totals s) + v\<rparr>,
                 t_edges := t_edges s @
                   [\<lparr>e_from = current_addr, e_to = to_addr, e_eth = v, e_hash = o_hash tx_info\<rparr>]\<rparr>;
          label = (case known to_addr_lower of None \<Rightarrow> [] | Some l \<Rightarrow> l)
      in if label \<noteq> [] then
           (if sublist ''Tornado'' label then
              s1\<lparr>t_totals := (t_totals s1)\<lparr>eth_to_mixers := eth_to_mixers (t_totals s1) + v\<rparr>,
                  t_endpoints := t_endpoints s1 @
                    [\<lparr>ep_address = to_addr, ep_label = label, ep_type = ''mixer'', ep_eth = v,
                      ep_path = path @ [to_addr]\<rparr>]\<rparr>
            else if is_exchange_label label then
              s1\<lparr>t_totals := (t_totals s1)\<lparr>eth_to_exchanges := eth_to_exchanges (t_totals s1) + v\<rparr>,
                  t_endpoints := t_endpoints s1 @
                    [\<lparr>ep_address = to_addr, ep_label = label, ep_type = ''exchange'', ep_eth = v,
                      ep_path = path @ [to_addr]\<rparr>]\<rparr>
            else s1)
         else
           (let s2 = s1\<lparr>t_totals := (t_totals s1)\<lparr>eth_to_unknown := eth_to_unknown (t_totals s1) + v\<rparr>\<rparr>
            in if to_addr_lower \<notin> t_visited s2 \<and> current_depth + 1 < dlimit
               then s2\<lparr>t_queue := t_queue s2 @ [(to_addr, current_depth + 1, path @ [to_addr])]\<rparr>
               else s2))"

fun follow_outgoing ::
  "(string \<rightharpoonup> string) \<Rightarrow> int \<Rightarrow> string \<Rightarrow> int \<Rightarrow> string list \<Rightarrow> outgoing list \<Rightarrow>
     trace_state \<Rightarrow> trace_state" where
  "follow_outgoing known dlimit current_addr current_depth path [] s = s"
| "follow_outgoing known dlimit current_addr current_depth path (tx_info # rest) s =
     follow_outgoing known dlimit current_addr current_depth path rest
       (follow_one known dlimit current_addr current_depth path tx_info s)"

text \<open>
  One turn of the \<^verbatim>\<open>while queue\<close> loop. The loop ends since every entry put on the
  queue is one hop deeper than the entry taken off, and entries at the depth limit put
  nothing on it: the multiset of the distances to the limit goes down.
\<close>

definition trace_step ::
  "(string \<rightharpoonup> string) \<Rightarrow> blockscout \<Rightarrow> int \<Rightarrow> rat \<Rightarrow> bool \<Rightarrow> trace_state \<Rightarrow> trace_state" where
  "trace_step known bs dlimit min_eth verbose s =
     (case t_queue s of
        [] \<Rightarrow> s
      | (current_addr, current_depth, path) # rest \<Rightarrow>
          (let current_addr_lower = lower current_addr;
               s0 = s\<lparr>t_queue := rest\<rparr>
           in if current_addr_lower \<in> t_visited s0 \<or> current_depth \<ge> dlimit then s0
              else
                (let s1 = s0\<lparr>t_visited := insert current_addr_lower (t_visited s0),
                            t_totals := (t_totals s0)\<lparr>addresses_traced := addresses_traced (t_totals s0) + 1\<rparr>,
                            t_hops := (if verbose
                                       then t_hops s0 @ [(current_depth, take 15 current_addr, length path)]
                                       else t_hops s0)\<rparr>;
                     txs = get_outgoing_transactions bs current_addr;
                     out = filter_outgoing min_eth txs;
                     s2 = follow_outgoing known dlimit current_addr current_depth path out s1
                 in s2\<lparr>t_nodes := (t_nodes s2)(current_addr_lower \<mapsto>
                         \<lparr>ni_tx_count = length txs, ni_outgoing_tracked = length out,
                          ni_label = known current_addr_lower\<rparr>)\<rparr>)))"

function trace_loop ::
  "(string \<rightharpoonup> string) \<Rightarrow> blockscout \<Rightarrow> int \<Rightarrow> rat \<Rightarrow> bool \<Rightarrow> trace_state \<Rightarrow> trace_state" where
  "trace_loop known bs dlimit min_eth verbose s =
     (if t_queue s = [] then s
      else trace_loop known bs dlimit min_eth verbose (trace_step known bs dlimit min_eth verbose s))"
  by pat_completeness auto
termination
proof (relation "inv_image (mult less_than)
    (\<lambda>(known, bs, dlimit, min_eth, verbose, s).
        mset (map (\<lambda>e. Suc (nat (dlimit - fst (snd e)))) (t_queue s)))")
  show "wf (inv_image (mult less_than)
    (\<lambda>(known, bs, dlimit, min_eth, verbose, s).
        mset (map (\<lambda>e. Suc (nat (dlimit - fst (snd e)))) (t_queue s))))"
    by (simp add: wf_mult)
next
  fix known :: "string \<rightharpoonup> string" and bs :: blockscout and dlimit :: int and min_eth :: rat
    and verbose :: bool and s :: trace_state
  assume ne: "t_queue s \<noteq> []"
  obtain a d p rest where q: "t_queue s = (a, d, p) # rest"
    using ne by (cases "t_queue s") auto
  let ?w = "\<lambda>e :: string \<times> int \<times> string list. Suc (nat (dlimit - fst (snd e)))"
  have fol: "\<exists>new. t_queue (follow_outgoing known dlimit a d p out t) = t_queue t @ new \<and>
                (\<forall>e \<in> set new. fst (snd e) = d + 1)" for out t
  proof (induction out arbitrary: t)
    case Nil
    show ?case by (rule exI [of _ "[]"]) simp
  next
    case (Cons x out)
    let ?t' = "follow_one known dlimit a d p x t"
    have eq: "follow_outgoing known dlimit a d p (x # out) t = follow_outgoing known dlimit a d p out ?t'"
      by simp
    have qs: "t_queue ?t' = t_queue t \<or> t_queue ?t' = t_queue t @ [(o_to x, d + 1, p @ [o_to x])]"
      by (simp add: follow_one_def Let_def)
    from Cons.IH [of ?t'] obtain new where
      n: "t_queue (follow_outgoing known dlimit a d p out ?t') = t_queue ?t' @ new"
      and nd: "\<forall>e \<in> set new. fst (snd e) = d + 1" by blast
    from qs show ?case
    proof
      assume "t_queue ?t' = t_queue t"
      then show ?thesis using eq n nd by auto
    next
      assume "t_queue ?t' = t_queue t @ [(o_to x, d + 1, p @ [o_to x])]"
      then have "t_queue (follow_outgoing known dlimit a d p (x # out) t) =
          t_queue t @ ((o_to x, d + 1, p @ [o_to x]) # new)"
        using eq n by simp
      moreover have "\<forall>e \<in> set ((o_to x, d + 1, p @ [o_to x]) # new). fst (snd e) = d + 1"
        using nd by simp
      ultimately show ?thesis by blast
    qed
  qed
  have "\<exists>new. t_queue (trace_step known bs dlimit min_eth verbose s) = rest @ new \<and>
          (\<forall>e \<in> set new. fst (snd e) = d + 1) \<and> (new \<noteq> [] \<longrightarrow> d < dlimit)"
  proof (cases "lower a \<in> t_visited s \<or> d \<ge> dlimit")
    case True
    then have "t_queue (trace_step known bs dlimit min_eth verbose s) = rest @ []"
      by (auto simp: trace_step_def q Let_def)
    then show ?thesis by fastforce
  next
    case False
    let ?s1 = "s\<lparr>t_queue := rest, t_visited := insert (lower a) (t_visited s),
                  t_totals := (t_totals s)\<lparr>addresses_traced := addresses_traced (t_totals s) + 1\<rparr>,
                  t_hops := (if verbose then t_hops s @ [(d, take 15 a, length p)] else t_hops s)\<rparr>"
    from fol [of "filter_outgoing min_eth (get_outgoing_transactions bs a)" ?s1] obtain new where
      n: "t_queue (follow_outgoing known dlimit a d p
            (filter_outgoing min_eth (get_outgoing_transactions bs a)) ?s1) = t_queue ?s1 @ new"
      and nd: "\<forall>e \<in> set new. fst (snd e) = d + 1" by blast
    have "t_queue (trace_step known bs dlimit min_eth verbose s) = rest @ new"
      using False n by (cases verbose) (simp_all add: trace_step_def q Let_def)
    then show ?thesis using nd False by auto
  qed
  then obtain new where
    st: "t_queue (trace_step known bs dlimit min_eth verbose s) = rest @ new"
    and nd: "\<forall>e \<in> set new. fst (snd e) = d + 1"
    and lt: "new \<noteq> [] \<longrightarrow> d < dlimit" by blast
  have "(mset (map ?w rest) + mset (map ?w new), mset (map ?w rest) + {#?w (a, d, p)#}) \<in> mult less_than"
  proof (rule one_step_implies_mult)
    show "{#?w (a, d, p)#} \<noteq> {#}" by simp
    show "\<forall>k\<in>#mset (map ?w new). \<exists>j\<in>#{#?w (a, d, p)#}. (k, j) \<in> less_than"
      using lt nd by auto
  qed
  then show "((known, bs, dlimit, min_eth, verbose, trace_step known bs dlimit min_eth verbose s),
              (known, bs, dlimit, min_eth, verbose, s))
        \<in> inv_image (mult less_than)
            (\<lambda>(known, bs, dlimit, min_eth, verbose, s).
                mset (map (\<lambda>e. Suc (nat (dlimit - fst (snd e)))) (t_queue s)))"
    by (simp add: st q)
qed


record trace_graph =
  g_start :: string
  g_depth :: int
  g_min_eth :: rat
  g_nodes :: "string \<rightharpoonup> node_info"
  g_edges :: "edge list"
  g_endpoints :: "endpoint list"
  g_totals :: totals
  g_printed_hops :: "(int \<times> string \<times> nat) list"

definition zero_totals :: totals where
  "zero_totals = \<lparr>addresses_traced = 0, total_eth_tracked = 0, eth_to_exchanges = 0,
                   eth_to_mixers = 0, eth_to_unknown = 0\<rparr>"

definition trace_init :: "string \<Rightarrow> trace_state" where
  "trace_init start_addr =
     \<lparr>t_visited = {}, t_queue = [(start_addr, 0, [start_addr])], t_nodes = Map.empty,
      t_edges = [], t_endpoints = [], t_totals = zero_totals, t_hops = []\<rparr>"

definition trace_hops_v2 ::
  "(string \<rightharpoonup> string) \<Rightarrow> blockscout \<Rightarrow> string \<Rightarrow> int \<Rightarrow> rat \<Rightarrow> bool \<Rightarrow> trace_graph" where
  "trace_hops_v2 known bs start_addr dlimit min_eth verbose =
     (let s = trace_loop known bs dlimit min_eth verbose (trace_init start_addr)
      in \<lparr>g_start = start_addr, g_depth = dlimit, g_min_eth = min_eth,
          g_nodes = t_nodes s, g_edges = t_edges s, g_endpoints = t_endpoints s,
          g_totals = t_totals s, g_printed_hops = t_hops s\<rparr>)"

section \<open>tools/multi\_hop\_tracer.py: tracing hops over the node's trace API\<close>

text \<open>
  The first tracer reads \<^verbatim>\<open>trace_filter\<close> and \<^verbatim>\<open>eth_getBalance\<close> of the node; a
  failed call is \<open>None\<close>. Values are the integers that \<^verbatim>\<open>hex_to_int\<close> returns.
\<close>

record rpc_trace =
  action_to :: string
  action_value :: int
  blockNumber :: int
  transactionHash :: string

record transfer =
  tr_to :: string
  value_eth :: rat
  tr_block :: int
  tx_hash :: string
  tr_label :: "string option"

definition get_label :: "(string \<rightharpoonup> string) \<Rightarrow> string \<Rightarrow> string option" where
  "get_label known address = known (lower address)"

fun transfers_of :: "(string \<rightharpoonup> string) \<Rightarrow> rpc_trace list \<Rightarrow> transfer list" where
  "transfers_of known [] = []"
| "transfers_of known (trace # traces) =
     (let to_addr = lower (action_to trace);
          v = of_int (action_value trace) / 10 ^ 18
      in if v > 0 \<and> to_addr \<noteq> [] then
           \<lparr>tr_to = to_addr, value_eth = v, tr_block = blockNumber trace,
            tx_hash = transactionHash trace, tr_label = get_label known to_addr\<rparr>
             # transfers_of known traces
         else transfers_of known traces)"

record erigon =
  trace_filter :: "string \<Rightarrow> rpc_trace list option"
  eth_getBalance :: "string \<Rightarrow> int option"

definition get_outgoing_transfers :: "(string \<rightharpoonup> string) \<Rightarrow> erigon \<Rightarrow> string \<Rightarrow> transfer list" where
  "get_outgoing_transfers known rpc address =
     transfers_of known (case trace_filter rpc (lower address) of None \<Rightarrow> [] | Some traces \<Rightarrow> traces)"

definition get_balance :: "erigon \<Rightarrow> string \<Rightarrow> rat" where
  "get_balance rpc address =
     (case eth_getBalance rpc address of None \<Rightarrow> 0 | Some wei \<Rightarrow> of_int wei / 10 ^ 18)"

record hop =
  h_depth :: int
  h_path :: "string list"
  h_transfers :: "transfer list"
  h_balance :: rat

record hops_state =
  hs_visited :: "string set"
  hs_queue :: "(string \<times> int \<times> string list) list"
  hs_hops :: "string \<rightharpoonup> hop"
  hs_endpoints :: "endpoint list"
  hs_totals :: totals

definition follow_transfer :: "int \<Rightarrow> string list \<Rightarrow> transfer \<Rightarrow> hops_state \<Rightarrow> hops_state" where
  "follow_transfer current_depth path t s =
     (let to_addr = tr_to t;
          v = value_eth t;
          label = (case tr_label t of None \<Rightarrow> [] | Some l \<Rightarrow> l);
          s1 = s\<lparr>hs_totals := (hs_totals s)\<lparr>total_eth_tracked := total_eth_tracked (hs_totals s) + v\<rparr>\<rparr>
      in if label \<noteq> [] then
           (if sublist ''Tornado'' label then
              s1\<lparr>hs_totals := (hs_totals s1)\<lparr>eth_to_mixers := eth_to_mixers (hs_totals s1) + v\<rparr>,
                  hs_endpoints := hs_endpoints s1 @
                    [\<lparr>ep_address = to_addr, ep_label = label, ep_type = ''mixer'', ep_eth = v,
                      ep_path = path @ [to_addr]\<rparr>]\<rparr>
            else if is_exchange_label label then
              s1\<lparr>hs_totals := (hs_totals s1)\<lparr>eth_to_exchanges := eth_to_exchanges (hs_totals s1) + v\<rparr>,
                  hs_endpoints := hs_endpoints s1 @
                    [\<lparr>ep_address = to_addr, ep_label = label, ep_type = ''exchange'', ep_eth = v,
                      ep_path = path @ [to_addr]\<rparr>]\<rparr>
            else s1)
         else
           (let s2 = s1\<lparr>hs_totals := (hs_totals s1)\<lparr>eth_to_unknown := eth_to_unknown (hs_totals s1) + v\<rparr>\<rparr>
            in if to_addr \<notin> hs_visited s2
               then s2\<lparr>hs_queue := hs_queue s2 @ [(to_addr, current_depth + 1, path @ [to_addr])]\<rparr>
               else s2))"

fun follow_transfers :: "int \<Rightarrow> string list \<Rightarrow> transfer list \<Rightarrow> hops_state \<Rightarrow> hops_state" where
  "follow_transfers current_depth path [] s = s"
| "follow_transfers current_depth path (t # significant) s =
     follow_transfers current_depth path significant (follow_transfer current_depth path t s)"

definition hops_step ::
  "(string \<rightharpoonup> string) \<Rightarrow> erigon \<Rightarrow> int \<Rightarrow> rat \<Rightarrow> hops_state \<Rightarrow> hops_state" where
  "hops_step known rpc dlimit min_eth s =
     (case hs_queue s of
        [] \<Rightarrow> s
      | (address, current_depth, path) # rest \<Rightarrow>
          (let s0 = s\<lparr>hs_queue := rest\<rparr>
           in if address \<in> hs_visited s0 then s0
              else
                (let s1 = s0\<lparr>hs_visited := insert address (hs_visited s0)\<rparr>
                 in if current_depth \<ge> dlimit then s1
                    else
                      (let transfers = get_outgoing_transfers known rpc address;
                           significant = filter (\<lambda>t. value_eth t \<ge> min_eth) transfers;
                           s2 = s1\<lparr>hs_hops := (hs_hops s1)(address \<mapsto>
                                    \<lparr>h_depth = current_depth, h_path = path,
                                     h_transfers = significant, h_balance = get_balance rpc address\<rparr>),
                                  hs_totals := (hs_totals s1)
                                    \<lparr>addresses_traced := addresses_traced (hs_totals s1) + 1\<rparr>\<rparr>
                       in follow_transfers current_depth path significant s2))))"

function hops_loop ::
  "(string \<rightharpoonup> string) \<Rightarrow> erigon \<Rightarrow> int \<Rightarrow> rat \<Rightarrow> hops_state \<Rightarrow> hops_state" where
  "hops_loop known rpc dlimit min_eth s =
     (if hs_queue s = [] then s
      else hops_loop known rpc dlimit min_eth (hops_step known rpc dlimit min_eth s))"
  by pat_completeness auto
termination
proof (relation "inv_image (mult less_than)
    (\<lambda>(known, rpc, dlimit, min_eth, s).
        mset (map (\<lambda>e. Suc (nat (dlimit - fst (snd e)))) (hs_queue s)))")
  show "wf (inv_image (mult less_than)
    (\<lambda>(known, rpc, dlimit, min_eth, s).
        mset (map (\<lambda>e. Suc (nat (dlimit - fst (snd e)))) (hs_queue s))))"
    by (simp add: wf_mult)
next
  fix known :: "string \<rightharpoonup> string" and rpc :: erigon and dlimit :: int and min_eth :: rat
    and s :: hops_state
  assume ne: "hs_queue s \<noteq> []"
  obtain a d p rest where q: "hs_queue s = (a, d, p) # rest"
    using ne by (cases "hs_queue s") auto
  let ?w = "\<lambda>e :: string \<times> int \<times> string list. Suc (nat (dlimit - fst (snd e)))"
  have fol: "\<exists>new. hs_queue (follow_transfers d p ts t) = hs_queue t @ new \<and>
                (\<forall>e \<in> set new. fst (snd e) = d + 1)" for ts t
  proof (induction ts arbitrary: t)
    case Nil
    show ?case by (rule exI [of _ "[]"]) simp
  next
    case (Cons x ts)
    let ?t' = "follow_transfer d p x t"
    have qs: "hs_queue ?t' = hs_queue t \<or> hs_queue ?t' = hs_queue t @ [(tr_to x, d + 1, p @ [tr_to x])]"
      by (simp add: follow_transfer_def Let_def)
    from Cons.IH [of ?t'] obtain new where
      n: "hs_queue (follow_transfers d p ts ?t') = hs_queue ?t' @ new"
      and nd: "\<forall>e \<in> set new. fst (snd e) = d + 1" by blast
    from qs show ?case
    proof
      assume "hs_queue ?t' = hs_queue t"
      then show ?thesis using n nd by auto
    next
      assume "hs_queue ?t' = hs_queue t @ [(tr_to x, d + 1, p @ [tr_to x])]"
      then have "hs_queue (follow_transfers d p (x # ts) t) =
          hs_queue t @ ((tr_to x, d + 1, p @ [tr_to x]) # new)"
        using n by simp
      moreover have "\<forall>e \<in> set ((tr_to x, d + 1, p @ [tr_to x]) # new). fst (snd e) = d + 1"
        using nd by simp
      ultimately show ?thesis by blast
    qed
  qed
  have "\<exists>new. hs_queue (hops_step known rpc dlimit min_eth s) = rest @ new \<and>
          (\<forall>e \<in> set new. fst (snd e) = d + 1) \<and> (new \<noteq> [] \<longrightarrow> d < dlimit)"
  proof (cases "a \<in> hs_visited s \<or> d \<ge> dlimit")
    case True
    then have "hs_queue (hops_step known rpc dlimit min_eth s) = rest @ []"
      by (auto simp: hops_step_def q Let_def)
    then show ?thesis by fastforce
  next
    case False
    let ?sig = "filter (\<lambda>t. value_eth t \<ge> min_eth) (get_outgoing_transfers known rpc a)"
    let ?s2 = "s\<lparr>hs_queue := rest, hs_visited := insert a (hs_visited s),
                  hs_hops := (hs_hops s)(a \<mapsto>
                     \<lparr>h_depth = d, h_path = p, h_transfers = ?sig, h_balance = get_balance rpc a\<rparr>),
                  hs_totals := (hs_totals s)\<lparr>addresses_traced := addresses_traced (hs_totals s) + 1\<rparr>\<rparr>"
    from fol [of ?sig ?s2] obtain new where
      n: "hs_queue (follow_transfers d p ?sig ?s2) = hs_queue ?s2 @ new"
      and nd: "\<forall>e \<in> set new. fst (snd e) = d + 1" by blast
    have "hs_queue (hops_step known rpc dlimit min_eth s) = rest @ new"
      using False n by (simp add: hops_step_def q Let_def)
    then show ?thesis using nd False by auto
  qed
  then obtain new where
    st: "hs_queue (hops_step known rpc dlimit min_eth s) = rest @ new"
    and nd: "\<forall>e \<in> set new. fst (snd e) = d + 1"
    and lt: "new \<noteq> [] \<longrightarrow> d < dlimit" by blast
  have "(mset (map ?w rest) + mset (map ?w new), mset (map ?w rest) + {#?w (a, d, p)#}) \<in> mult less_than"
  proof (rule one_step_implies_mult)
    show "{#?w (a, d, p)#} \<noteq> {#}" by simp
    show "\<forall>k\<in>#mset (map ?w new). \<exists>j\<in>#{#?w (a, d, p)#}. (k, j) \<in> less_than"
      using lt nd by auto
  qed
  then show "((known, rpc, dlimit, min_eth, hops_step known rpc dlimit min_eth s),
              (known, rpc, dlimit, min_eth, s))
        \<in> inv_image (mult less_than)
            (\<lambda>(known, rpc, dlimit, min_eth, s).
                mset (map (\<lambda>e. Suc (nat (dlimit - fst (snd e)))) (hs_queue s)))"
    by (simp add: st q)
qed

record hops_graph =
  hg_start :: string
  hg_depth :: int
  hg_min_eth :: rat
  hg_hops :: "string \<rightharpoonup> hop"
  hg_endpoints :: "endpoint list"
  hg_totals :: totals

definition trace_hops ::
  "(string \<rightharpoonup> string) \<Rightarrow> erigon \<Rightarrow> string \<Rightarrow> int \<Rightarrow> rat \<Rightarrow> hops_graph" where
  "trace_hops known rpc start_address dlimit min_eth =
     (let s = hops_loop known rpc dlimit min_eth
                \<lparr>hs_visited = {}, hs_queue = [(lower start_address, 0, [lower start_address])],
                 hs_hops = Map.empty, hs_endpoints = [], hs_totals = zero_totals\<rparr>
      in \<lparr>hg_start = lower start_address, hg_depth = dlimit, hg_min_eth = min_eth,
          hg_hops = hs_hops s, hg_endpoints = hs_endpoints s, hg_totals = hs_totals s\<rparr>)"


section \<open>tools/address\_monitor\_daemon.py: one check of the watchlist\<close>














section \<open>The monitor's deltas in the words of the specification\<close>








section \<open>The rate limiter of network\_expander.py and haiku\_tracer.py\<close>









section \<open>What the expansion keeps true\<close>

text \<open>
  Notions for stating the properties of \<^verbatim>\<open>bfs_expand\<close>; none of them is part of the
  program. \<open>new_peers V xs\<close> lists the addresses that the loop over \<^verbatim>\<open>next_addrs\<close> puts
  on the queue when the visited set is \<open>V\<close>, and \<open>peers_added\<close> is that list for the
  entry at the head of the queue. \<open>reached_from\<close> says that a node one level up, still
  below the depth limit, lists the address among its peers. \<open>empty_analysis\<close> is the
  analysis of an address without transactions, and \<open>no_failures net\<close> answers every
  request that raises in \<open>net\<close> with an empty successful reply.
\<close>

fun new_peers :: "string set \<Rightarrow> string list \<Rightarrow> string list" where
  "new_peers V [] = []"
| "new_peers V (x # xs) =
     (if x \<notin> V then
        (case known_wallet x of
           Some name \<Rightarrow> new_peers V xs
         | None \<Rightarrow> x # new_peers (insert x V) xs)
      else new_peers V xs)"

definition peers_added ::
  "network \<Rightarrow> (string list \<Rightarrow> string list) \<Rightarrow> int \<Rightarrow> string \<Rightarrow> bfs_state \<Rightarrow> string list" where
  "peers_added net order md dir s =
     (case queue s of
        [] \<Rightarrow> []
      | (a, d) # rest \<Rightarrow>
          if d \<ge> md then []
          else new_peers (visited s) (next_addrs dir (analyze_address net order a)))"

definition reached_from :: "int \<Rightarrow> string \<Rightarrow> (string \<rightharpoonup> node) \<Rightarrow> string \<Rightarrow> int \<Rightarrow> bool" where
  "reached_from md dir g v d =
     (\<exists>u m. g u = Some m \<and> d = depth m + 1 \<and> depth m < md \<and>
            v \<in> set (next_addrs dir (analysis m)))"

definition bfs_inv ::
  "network \<Rightarrow> (string list \<Rightarrow> string list) \<Rightarrow> int \<Rightarrow> string \<Rightarrow> string set \<Rightarrow> bfs_state \<Rightarrow> bool" where
  "bfs_inv net order md dir S s =
     (S \<subseteq> visited s \<and>
      visited s = dom (graph s) \<union> fst ` set (queue s) \<and>
      distinct (map fst (filter (\<lambda>e. fst e \<notin> S) (queue s))) \<and>
      (\<forall>e \<in> set (queue s).
          (fst e \<in> S \<and> snd e = 0) \<or>
          (fst e \<notin> S \<and> fst e \<notin> dom (graph s) \<and> reached_from md dir (graph s) (fst e) (snd e))) \<and>
      (\<forall>v n. graph s v = Some n \<longrightarrow>
          analysis n = analyze_address net order v \<and>
          ((v \<in> S \<and> depth n = 0) \<or> (v \<notin> S \<and> reached_from md dir (graph s) v (depth n)))))"

definition inv_nonneg :: "bfs_state \<Rightarrow> bool" where
  "inv_nonneg s =
     ((\<forall>e \<in> set (queue s). 0 \<le> snd e) \<and> (\<forall>v n. graph s v = Some n \<longrightarrow> 0 \<le> depth n))"

definition inv_known :: "string set \<Rightarrow> bfs_state \<Rightarrow> bool" where
  "inv_known S s = (\<forall>a \<in> visited s. a \<in> S \<or> known_wallet a = None)"

definition inv_once :: "bfs_state \<Rightarrow> bool" where
  "inv_once s =
     (distinct (map fst (queue s)) \<and> fst ` set (queue s) \<inter> dom (graph s) = {} \<and>
      visited s = dom (graph s) \<union> fst ` set (queue s))"

definition deposit_touchpoint :: "string \<Rightarrow> node \<Rightarrow> touchpoint" where
  "deposit_touchpoint v n =
     Deposit_Touchpoint v (exchange_name (analysis n)) (depth n)
       (usdt_in (analysis n) + usdt_out (analysis n)) (eth_in (analysis n) + eth_out (analysis n))"

definition inv_touch :: "int \<Rightarrow> string \<Rightarrow> string set \<Rightarrow> bfs_state \<Rightarrow> bool" where
  "inv_touch md dir S s =
     (\<forall>v n. graph s v = Some n \<longrightarrow>
        (is_exchange_deposit (analysis n) \<longrightarrow> deposit_touchpoint v n \<in> set (kyc_touchpoints s)) \<and>
        (\<forall>x name. depth n < md \<and> x \<in> set (next_addrs dir (analysis n)) \<and>
            known_wallet x = Some name \<and> x \<notin> S \<longrightarrow>
            Direct_Touchpoint v name (depth n) x \<in> set (kyc_touchpoints s)))"

definition empty_analysis :: "(string list \<Rightarrow> string list) \<Rightarrow> string \<Rightarrow> analysis" where
  "empty_analysis order a =
     \<lparr>an_address = a, is_exchange_deposit = False, exchange_name = None, tx_count = 0,
      eth_in = 0, eth_out = 0, usdt_in = 0, usdt_out = 0,
      connected_in = order [], connected_out = order [], first_tx = 0, last_tx = 0\<rparr>"

definition no_failures :: "network \<Rightarrow> network" where
  "no_failures net action a = (case net action a of Raised \<Rightarrow> Replied ''1'' [] | Replied st res \<Rightarrow> Replied st res)"

section \<open>Example ledgers\<close>

definition tx_eth :: "string \<Rightarrow> string \<Rightarrow> tx" where
  "tx_eth f t = \<lparr>tx_from = f, tx_to = t, tx_value = 1000000000000000000, tx_tokenDecimal = 18,
       tx_tokenSymbol = '''', tx_timeStamp = 1700000000\<rparr>"

definition funnel_net :: network where
  "funnel_net action a =
     (if action = ''txlist'' \<and> a = ''0xaa''
      then Replied ''1'' [tx_eth ''0xcc'' ''0xaa'',
                          tx_eth ''0xaa'' ''0x28c6c06298d514db089934071355e5743bf21d60'']
      else Replied ''0'' [])"








definition shared_peer_net :: network where
  "shared_peer_net action a =
     (if action = ''txlist'' \<and> a = ''0xa1'' then Replied ''1'' [tx_eth ''0xa1'' ''0xcc'']
      else if action = ''txlist'' \<and> a = ''0xb2'' then Replied ''1'' [tx_eth ''0xb2'' ''0xcc'']
      else Replied ''0'' [])"

definition cycle_ledger :: blockscout where
  "cycle_ledger a =
     (if a = ''0xa'' then Some [\<lparr>btx_value = 1000000000000000000, btx_to = Some ''0xb'',
                                 btx_hash = ''0x01'', btx_timestamp = ''t1''\<rparr>]
      else if a = ''0xb'' then Some [\<lparr>btx_value = 1000000000000000000, btx_to = Some ''0xa'',
                                      btx_hash = ''0x02'', btx_timestamp = ''t2''\<rparr>]
      else Some [])"

definition failing_interior :: network where
  "failing_interior action a =
     (if a = ''0xa1'' then (if action = ''txlist'' then Replied ''1'' [tx_eth ''0xa1'' ''0xcc'',
                                                                  tx_eth ''0xa1'' ''0xdd'']
                            else Replied ''0'' [])
      else if a = ''0xcc'' then Raised
      else if a = ''0xdd'' \<and> action = ''txlist'' then Replied ''1'' [tx_eth ''0xdd'' ''0xee'']
      else Replied ''0'' [])"

section \<open>The known-wallet short cut\<close>

lemma deposit_pattern_empty: "is_exchange_deposit_pattern a [] = (False, None)"
  by (simp add: is_exchange_deposit_pattern_def)

lemma deposit_pattern_known:
  "txs \<noteq> [] \<Longrightarrow> known_wallet (lower a) = Some name \<Longrightarrow>
     is_exchange_deposit_pattern a txs = (True, Some name)"
  by (simp add: is_exchange_deposit_pattern_def)

text \<open>
  C4, as the claim states it, fails: for a known hot wallet with an empty transaction
  list the emptiness check comes first and the answer is \<open>(False, None)\<close>.
\<close>

theorem C4_empty_list_counterexample:
  "known_wallet (lower ''0x28c6c06298d514db089934071355e5743bf21d60'') = Some ''Binance 14'' \<and>
   is_exchange_deposit_pattern ''0x28c6c06298d514db089934071355e5743bf21d60'' [] = (False, None)"
  by (simp add: deposit_pattern_empty known_wallet_def KNOWN_EXCHANGE_HOT_WALLETS_def
        lower_def lower_char_def)

text \<open>
  C4, amended: for every address whose lower-cased form is a key of the known hot wallet
  table and every non-empty transaction list, \<open>is_exchange_deposit_pattern\<close> answers
  \<open>(True, label)\<close> with the label of the table, whatever the transactions are; for the
  empty transaction list it answers \<open>(False, None)\<close>.
\<close>

theorem C4_known_wallet_short_circuit:
  "known_wallet (lower a) = Some name \<Longrightarrow>
     is_exchange_deposit_pattern a txs = (if txs = [] then (False, None) else (True, Some name))"
  by (simp add: deposit_pattern_empty deposit_pattern_known)

theorem C4_known_wallet_short_circuit_witness:
  "known_wallet (lower ''0x28C6c06298d514Db089934071355E5743bf21d60'') = Some ''Binance 14'' \<and>
   is_exchange_deposit_pattern ''0x28C6c06298d514Db089934071355E5743bf21d60''
     [\<lparr>tx_from = ''0xaa'', tx_to = ''0xbb'', tx_value = 5, tx_tokenDecimal = 18,
       tx_tokenSymbol = '''', tx_timeStamp = 0\<rparr>] = (True, Some ''Binance 14'')"
proof -
  have k: "known_wallet (lower ''0x28C6c06298d514Db089934071355E5743bf21d60'') = Some ''Binance 14''"
    by (simp add: known_wallet_def KNOWN_EXCHANGE_HOT_WALLETS_def lower_def lower_char_def)
  show ?thesis
    using k C4_known_wallet_short_circuit [OF k,
      of "[\<lparr>tx_from = ''0xaa'', tx_to = ''0xbb'', tx_value = 5, tx_tokenDecimal = 18,
            tx_tokenSymbol = '''', tx_timeStamp = 0\<rparr>]"]
    by simp
qed

section \<open>Properties of the deposit pattern\<close>















lemma positive_dict_incr:
  "\<forall>kc \<in> set d. 0 < snd kc \<Longrightarrow> \<forall>kc \<in> set (dict_incr d k). 0 < snd kc"
  by (induction d k rule: dict_incr.induct) auto










section \<open>The alerts of one monitor cycle\<close>














section \<open>The rate limiter: what a rolling second can hold\<close>








section \<open>Steps of the expansion\<close>

lemma lower_char_idem: "lower_char (lower_char c) = lower_char c"
proof -
  define T where "T = zip ''ABCDEFGHIJKLMNOPQRSTUVWXYZ'' ''abcdefghijklmnopqrstuvwxyz''"
  have lc: "lower_char x = (case map_of T x of Some l \<Rightarrow> l | None \<Rightarrow> x)" for x
    unfolding T_def by (rule lower_char_def)
  have dj: "list_all (\<lambda>x. map_of T x = None) ''abcdefghijklmnopqrstuvwxyz''"
    unfolding T_def by code_simp
  have rng: "list_all (\<lambda>p. snd p \<in> set ''abcdefghijklmnopqrstuvwxyz'') T"
    unfolding T_def by code_simp
  show ?thesis
  proof (cases "map_of T c")
    case None
    then show ?thesis by (simp only: lc option.case)
  next
    case (Some l)
    then have "(c, l) \<in> set T" by (rule map_of_SomeD)
    with rng have "l \<in> set ''abcdefghijklmnopqrstuvwxyz''"
      unfolding list_all_iff by force
    with dj have "map_of T l = None"
      unfolding list_all_iff by blast
    then show ?thesis using Some by (simp only: lc option.case)
  qed
qed

lemma lower_idem: "lower (lower s) = lower s"
  by (simp add: lower_def lower_char_idem)

lemma new_peers_subset: "set (new_peers V xs) \<subseteq> set xs - V"
  by (induction xs arbitrary: V) (auto split: option.splits)

lemma new_peers_distinct: "distinct (new_peers V xs)"
proof (induction xs arbitrary: V)
  case Nil
  show ?case by simp
next
  case (Cons x xs)
  have "x \<notin> set (new_peers (insert x V) xs)"
    using new_peers_subset [of "insert x V" xs] by auto
  then show ?case using Cons.IH by (simp split: option.splits)
qed

lemma new_peers_unknown: "x \<in> set (new_peers V xs) \<Longrightarrow> known_wallet x = None"
  by (induction xs arbitrary: V) (auto split: option.splits if_splits)

lemma enqueue_next_queue:
  "queue (enqueue_next a d xs s) = queue s @ map (\<lambda>x. (x, d + 1)) (new_peers (visited s) xs)"
  by (induction xs arbitrary: s) (simp_all split: option.splits)

lemma enqueue_next_visited:
  "visited (enqueue_next a d xs s) = visited s \<union> set (new_peers (visited s) xs)"
  by (induction xs arbitrary: s) (auto split: option.splits)

lemma enqueue_next_graph: "graph (enqueue_next a d xs s) = graph s"
  by (induction xs arbitrary: s) (simp_all split: option.splits)

lemma enqueue_next_touchpoints:
  "\<exists>ts. kyc_touchpoints (enqueue_next a d xs s) = kyc_touchpoints s @ ts"
proof (induction xs arbitrary: s)
  case Nil
  show ?case by simp
next
  case (Cons x xs)
  show ?case
  proof (cases "x \<notin> visited s")
    case False
    then show ?thesis using Cons.IH [of s] by simp
  next
    case True
    show ?thesis
    proof (cases "known_wallet x")
      case None
      then show ?thesis
        using True Cons.IH [of "s\<lparr>visited := insert x (visited s), queue := queue s @ [(x, d + 1)]\<rparr>"]
        by simp
    next
      case (Some name)
      let ?s = "s\<lparr>kyc_touchpoints := kyc_touchpoints s @ [Direct_Touchpoint a name d x]\<rparr>"
      from Cons.IH [of ?s] obtain ts where
        "kyc_touchpoints (enqueue_next a d xs ?s) = kyc_touchpoints ?s @ ts" ..
      then have "kyc_touchpoints (enqueue_next a d (x # xs) s) =
          kyc_touchpoints s @ (Direct_Touchpoint a name d x # ts)"
        using True Some by simp
      then show ?thesis ..
    qed
  qed
qed

lemma enqueue_next_direct:
  "x \<in> set xs \<Longrightarrow> known_wallet x = Some name \<Longrightarrow> x \<notin> visited (enqueue_next a d xs s) \<Longrightarrow>
     Direct_Touchpoint a name d x \<in> set (kyc_touchpoints (enqueue_next a d xs s))"
proof (induction xs arbitrary: s)
  case Nil
  then show ?case by simp
next
  case (Cons y ys)
  have mono: "visited t \<subseteq> visited (enqueue_next a d ys t)" for t
    by (simp add: enqueue_next_visited)
  show ?case
  proof (cases "x = y")
    case True
    let ?s = "s\<lparr>kyc_touchpoints := kyc_touchpoints s @ [Direct_Touchpoint a name d x]\<rparr>"
    have nv: "x \<notin> visited s"
      using Cons.prems(3) enqueue_next_visited [of a d "y # ys" s] by auto
    then have eq: "enqueue_next a d (y # ys) s = enqueue_next a d ys ?s"
      using True Cons.prems(2) by simp
    from enqueue_next_touchpoints [of a d ys ?s] obtain ts where
      "kyc_touchpoints (enqueue_next a d ys ?s) = kyc_touchpoints ?s @ ts" ..
    then show ?thesis using eq by simp
  next
    case False
    then have xin: "x \<in> set ys" using Cons.prems(1) by simp
    show ?thesis
    proof (cases "y \<notin> visited s")
      case False
      then have "enqueue_next a d (y # ys) s = enqueue_next a d ys s" by simp
      then show ?thesis using Cons.IH [OF xin Cons.prems(2), of s] Cons.prems(3) by simp
    next
      case True
      show ?thesis
      proof (cases "known_wallet y")
        case None
        let ?s = "s\<lparr>visited := insert y (visited s), queue := queue s @ [(y, d + 1)]\<rparr>"
        have "enqueue_next a d (y # ys) s = enqueue_next a d ys ?s" using True None by simp
        then show ?thesis using Cons.IH [OF xin Cons.prems(2), of ?s] Cons.prems(3) by simp
      next
        case (Some n)
        let ?s = "s\<lparr>kyc_touchpoints := kyc_touchpoints s @ [Direct_Touchpoint a n d y]\<rparr>"
        have "enqueue_next a d (y # ys) s = enqueue_next a d ys ?s" using True Some by simp
        then show ?thesis using Cons.IH [OF xin Cons.prems(2), of ?s] Cons.prems(3) by simp
      qed
    qed
  qed
qed

declare bfs_loop.simps [simp del] trace_loop.simps [simp del] hops_loop.simps [simp del]

lemma peers_added_Cons:
  "queue s = (a, d) # rest \<Longrightarrow>
     peers_added net order md dir s =
       (if d \<ge> md then [] else new_peers (visited s) (next_addrs dir (analyze_address net order a)))"
  by (simp add: peers_added_def)

lemma peers_added_props:
  assumes "queue s = (a, d) # rest"
  shows "distinct (peers_added net order md dir s)"
    and "set (peers_added net order md dir s) \<inter> visited s = {}"
    and "set (peers_added net order md dir s) \<subseteq> set (next_addrs dir (analyze_address net order a))"
    and "\<And>x. x \<in> set (peers_added net order md dir s) \<Longrightarrow> known_wallet x = None"
    and "peers_added net order md dir s \<noteq> [] \<Longrightarrow> d < md"
  using new_peers_subset [of "visited s" "next_addrs dir (analyze_address net order a)"]
  by (auto simp: peers_added_Cons [OF assms] new_peers_distinct new_peers_unknown split: if_splits)

lemma bfs_step_Cons:
  assumes q: "queue s = (a, d) # rest"
  shows "queue (bfs_step net order md dir s) =
           rest @ map (\<lambda>x. (x, d + 1)) (peers_added net order md dir s)"
    and "visited (bfs_step net order md dir s) = visited s \<union> set (peers_added net order md dir s)"
    and "graph (bfs_step net order md dir s) =
           (graph s)(a \<mapsto> \<lparr>depth = d, analysis = analyze_address net order a\<rparr>)"
  by (simp_all add: bfs_step_def q Let_def peers_added_Cons [OF q]
        enqueue_next_queue enqueue_next_visited enqueue_next_graph)

lemma bfs_step_Nil: "queue s = [] \<Longrightarrow> bfs_step net order md dir s = s"
  by (simp add: bfs_step_def)

lemma bfs_step_touchpoints:
  "\<exists>ts. kyc_touchpoints (bfs_step net order md dir s) = kyc_touchpoints s @ ts"
proof (cases "queue s")
  case Nil
  then show ?thesis by (simp add: bfs_step_Nil)
next
  case (Cons e rest)
  obtain a d where e: "e = (a, d)" by (cases e)
  let ?A = "analyze_address net order a"
  let ?s1 = "s\<lparr>queue := rest, graph := (graph s)(a \<mapsto> \<lparr>depth = d, analysis = ?A\<rparr>)\<rparr>"
  let ?tp = "Deposit_Touchpoint a (exchange_name ?A) d (usdt_in ?A + usdt_out ?A) (eth_in ?A + eth_out ?A)"
  let ?s2 = "if is_exchange_deposit ?A
             then ?s1\<lparr>kyc_touchpoints := kyc_touchpoints ?s1 @ [?tp]\<rparr> else ?s1"
  have s2: "\<exists>ts. kyc_touchpoints ?s2 = kyc_touchpoints s @ ts" by simp
  have st: "bfs_step net order md dir s =
      (if d \<ge> md then ?s2 else enqueue_next a d (next_addrs dir ?A) ?s2)"
    by (simp add: bfs_step_def Cons e Let_def)
  from enqueue_next_touchpoints [of a d "next_addrs dir ?A" ?s2] obtain ts' where
    "kyc_touchpoints (enqueue_next a d (next_addrs dir ?A) ?s2) = kyc_touchpoints ?s2 @ ts'" ..
  with s2 have "\<exists>ts. kyc_touchpoints (enqueue_next a d (next_addrs dir ?A) ?s2) = kyc_touchpoints s @ ts"
    by auto
  with s2 st show ?thesis by (cases "d \<ge> md") simp_all
qed

lemma bfs_step_deposit:
  assumes q: "queue s = (a, d) # rest" and dep: "is_exchange_deposit (analyze_address net order a)"
  shows "Deposit_Touchpoint a (exchange_name (analyze_address net order a)) d
           (usdt_in (analyze_address net order a) + usdt_out (analyze_address net order a))
           (eth_in (analyze_address net order a) + eth_out (analyze_address net order a))
         \<in> set (kyc_touchpoints (bfs_step net order md dir s))"
proof -
  let ?A = "analyze_address net order a"
  let ?s1 = "s\<lparr>queue := rest, graph := (graph s)(a \<mapsto> \<lparr>depth = d, analysis = ?A\<rparr>)\<rparr>"
  let ?tp = "Deposit_Touchpoint a (exchange_name ?A) d (usdt_in ?A + usdt_out ?A) (eth_in ?A + eth_out ?A)"
  let ?s2 = "?s1\<lparr>kyc_touchpoints := kyc_touchpoints ?s1 @ [?tp]\<rparr>"
  have st: "bfs_step net order md dir s =
      (if d \<ge> md then ?s2 else enqueue_next a d (next_addrs dir ?A) ?s2)"
    using dep by (simp add: bfs_step_def q Let_def)
  from enqueue_next_touchpoints [of a d "next_addrs dir ?A" ?s2] obtain ts' where
    "kyc_touchpoints (enqueue_next a d (next_addrs dir ?A) ?s2) = kyc_touchpoints ?s2 @ ts'" ..
  then have "?tp \<in> set (kyc_touchpoints (enqueue_next a d (next_addrs dir ?A) ?s2))" by simp
  then show ?thesis using st by (cases "d \<ge> md") simp_all
qed

lemma bfs_step_direct:
  assumes q: "queue s = (a, d) # rest" and lt: "d < md"
    and x: "x \<in> set (next_addrs dir (analyze_address net order a))"
    and k: "known_wallet x = Some name"
    and nv: "x \<notin> visited (bfs_step net order md dir s)"
  shows "Direct_Touchpoint a name d x \<in> set (kyc_touchpoints (bfs_step net order md dir s))"
proof -
  let ?A = "analyze_address net order a"
  let ?s1 = "s\<lparr>queue := rest, graph := (graph s)(a \<mapsto> \<lparr>depth = d, analysis = ?A\<rparr>)\<rparr>"
  let ?tp = "Deposit_Touchpoint a (exchange_name ?A) d (usdt_in ?A + usdt_out ?A) (eth_in ?A + eth_out ?A)"
  let ?s2 = "if is_exchange_deposit ?A
             then ?s1\<lparr>kyc_touchpoints := kyc_touchpoints ?s1 @ [?tp]\<rparr> else ?s1"
  have st: "bfs_step net order md dir s = enqueue_next a d (next_addrs dir ?A) ?s2"
    using lt by (simp add: bfs_step_def q Let_def)
  show ?thesis
    using enqueue_next_direct [OF x k, of a d ?s2] nv unfolding st by blast
qed

lemma bfs_loop_Nil: "queue s = [] \<Longrightarrow> bfs_loop net order md dir s = s"
  by (subst bfs_loop.simps) simp

lemma bfs_loop_Cons:
  "queue s \<noteq> [] \<Longrightarrow>
     bfs_loop net order md dir s = bfs_loop net order md dir (bfs_step net order md dir s)"
  by (subst bfs_loop.simps) simp

lemma bfs_loop_invariant:
  assumes init: "P s" and step: "\<And>t. P t \<Longrightarrow> queue t \<noteq> [] \<Longrightarrow> P (bfs_step net order md dir t)"
  shows "P (bfs_loop net order md dir s) \<and> queue (bfs_loop net order md dir s) = []"
proof -
  have "P s \<longrightarrow> (\<forall>t. P t \<longrightarrow> queue t \<noteq> [] \<longrightarrow> P (bfs_step net order md dir t)) \<longrightarrow>
        P (bfs_loop net order md dir s) \<and> queue (bfs_loop net order md dir s) = []"
  proof (induction net order md dir s rule: bfs_loop.induct)
    case (1 net order md dir s)
    show ?case
    proof (intro impI)
      assume p: "P s" and st: "\<forall>t. P t \<longrightarrow> queue t \<noteq> [] \<longrightarrow> P (bfs_step net order md dir t)"
      show "P (bfs_loop net order md dir s) \<and> queue (bfs_loop net order md dir s) = []"
      proof (cases "queue s = []")
        case True
        then show ?thesis using p by (simp only: bfs_loop_Nil simp_thms)
      next
        case False
        have "P (bfs_step net order md dir s)" using p False st by blast
        with "1.IH" [OF False] st show ?thesis
          by (simp only: bfs_loop_Cons [OF False] simp_thms)
      qed
    qed
  qed
  then show ?thesis using init step by blast
qed

section \<open>The invariant of the expansion\<close>

lemma init_seeds_fields:
  "visited (init_seeds xs s) = visited s \<union> lower ` set xs"
  "queue (init_seeds xs s) = queue s @ map (\<lambda>a. (lower a, 0)) xs"
  "graph (init_seeds xs s) = graph s"
  "kyc_touchpoints (init_seeds xs s) = kyc_touchpoints s"
  by (induction xs arbitrary: s) auto

lemma bfs_init_fields:
  "visited (bfs_init seeds) = lower ` set seeds"
  "queue (bfs_init seeds) = map (\<lambda>a. (lower a, 0)) seeds"
  "graph (bfs_init seeds) = Map.empty"
  "kyc_touchpoints (bfs_init seeds) = []"
  by (simp_all add: bfs_init_def init_seeds_fields)

lemma bfs_inv_init: "bfs_inv net order md dir (lower ` set seeds) (bfs_init seeds)"
  by (auto simp: bfs_inv_def bfs_init_fields image_image filter_empty_conv)

lemma bfs_inv_step:
  assumes inv: "bfs_inv net order md dir S s" and ne: "queue s \<noteq> []"
  shows "bfs_inv net order md dir S (bfs_step net order md dir s)"
proof -
  obtain a d rest where q: "queue s = (a, d) # rest"
    using ne by (cases "queue s") auto
  define A where "A = analyze_address net order"
  define P where "P = peers_added net order md dir s"
  define N where "N = \<lparr>depth = d, analysis = A a\<rparr>"
  define g where "g = graph s"
  define g' where "g' = g(a \<mapsto> N)"
  let ?s' = "bfs_step net order md dir s"
  have q': "queue ?s' = rest @ map (\<lambda>x. (x, d + 1)) P"
    and v': "visited ?s' = visited s \<union> set P"
    and gr': "graph ?s' = g'"
    using bfs_step_Cons [where net = net and order = order and md = md and dir = dir, OF q] by (simp_all add: P_def g'_def g_def N_def A_def)
  have Pd: "distinct P" and Pv: "set P \<inter> visited s = {}"
    and Pn: "set P \<subseteq> set (next_addrs dir (A a))" and Plt: "P \<noteq> [] \<Longrightarrow> d < md"
    using peers_added_props [where net = net and order = order and md = md and dir = dir, OF q] by (simp_all add: P_def A_def)
  have iS: "S \<subseteq> visited s"
    and iV: "visited s = dom g \<union> fst ` set (queue s)"
    and iD: "distinct (map fst (filter (\<lambda>e. fst e \<notin> S) (queue s)))"
    and iQ: "\<And>e. e \<in> set (queue s) \<Longrightarrow>
          (fst e \<in> S \<and> snd e = 0) \<or>
          (fst e \<notin> S \<and> fst e \<notin> dom g \<and> reached_from md dir g (fst e) (snd e))"
    and iG: "\<And>v n. g v = Some n \<Longrightarrow>
          analysis n = A v \<and>
          ((v \<in> S \<and> depth n = 0) \<or> (v \<notin> S \<and> reached_from md dir g v (depth n)))"
    using inv by (auto simp: bfs_inv_def g_def A_def)
  have head: "(a \<in> S \<and> d = 0) \<or> (a \<notin> S \<and> a \<notin> dom g \<and> reached_from md dir g a d)"
    using iQ [of "(a, d)"] q by simp
  have avis: "a \<in> visited s" using iV q by auto
  have sub: "g' v = Some n" if "g v = Some n" for v n
  proof (cases "v = a")
    case False
    then show ?thesis using that by (simp add: g'_def)
  next
    case True
    then have "a \<in> dom g" using that by auto
    with head have "a \<in> S" "d = 0" by auto
    moreover from iG [OF that] True \<open>a \<in> S\<close> have "analysis n = A a" "depth n = 0" by auto
    ultimately have "n = N" by (cases n) (simp add: N_def)
    then show ?thesis using True by (simp add: g'_def)
  qed
  have mono: "reached_from md dir g' v e" if "reached_from md dir g v e" for v e
    using that sub unfolding reached_from_def by blast
  have c1: "S \<subseteq> visited ?s'" using iS v' by auto
  have c2: "visited ?s' = dom (graph ?s') \<union> fst ` set (queue ?s')"
    unfolding v' gr' q' using iV q by (auto simp: g'_def image_Un image_image)
  have c3: "distinct (map fst (filter (\<lambda>e. fst e \<notin> S) (queue ?s')))"
  proof -
    have f2: "map fst (filter (\<lambda>e. fst e \<notin> S) (map (\<lambda>x. (x, d + 1)) P)) = filter (\<lambda>x. x \<notin> S) P"
      by (induction P) auto
    have d1: "distinct (map fst (filter (\<lambda>e. fst e \<notin> S) rest))"
      using iD q by (auto split: if_splits)
    have d2: "distinct (filter (\<lambda>x. x \<notin> S) P)" using Pd by simp
    have "fst ` set rest \<subseteq> visited s" using iV q by auto
    then have dj: "set (map fst (filter (\<lambda>e. fst e \<notin> S) rest)) \<inter> set (filter (\<lambda>x. x \<notin> S) P) = {}"
      using Pv by auto
    show ?thesis unfolding q' using d1 d2 dj by (simp add: f2)
  qed
  have c4: "(fst e \<in> S \<and> snd e = 0) \<or>
          (fst e \<notin> S \<and> fst e \<notin> dom (graph ?s') \<and> reached_from md dir (graph ?s') (fst e) (snd e))"
    if e: "e \<in> set (queue ?s')" for e
  proof -
    from e have "e \<in> set rest \<or> (\<exists>x \<in> set P. e = (x, d + 1))" unfolding q' by auto
    then show ?thesis
    proof
      assume er: "e \<in> set rest"
      then have eq: "e \<in> set (queue s)" using q by simp
      show ?thesis
      proof (cases "fst e \<in> S")
        case True
        then show ?thesis using iQ [OF eq] by auto
      next
        case False
        with iQ [OF eq] have nd: "fst e \<notin> dom g" and r: "reached_from md dir g (fst e) (snd e)"
          by auto
        have "fst e \<noteq> a"
        proof (cases "a \<in> S")
          case True
          then show ?thesis using False by auto
        next
          case aS: False
          have "a \<notin> fst ` set (filter (\<lambda>e. fst e \<notin> S) rest)"
            using iD q aS by auto
          moreover have "fst e \<in> fst ` set (filter (\<lambda>e. fst e \<notin> S) rest)"
            using er False by auto
          ultimately show ?thesis by auto
        qed
        then have "fst e \<notin> dom g'" using nd by (simp add: g'_def)
        then show ?thesis using False mono [OF r] unfolding gr' by simp
      qed
    next
      assume "\<exists>x \<in> set P. e = (x, d + 1)"
      then obtain x where x: "x \<in> set P" and e: "e = (x, d + 1)" by blast
      have nv: "x \<notin> visited s" using x Pv by auto
      then have xS: "x \<notin> S" and xg: "x \<notin> dom g" and xa: "x \<noteq> a"
        using iS iV avis by auto
      have "P \<noteq> []" using x by (cases P) simp_all
      then have "d < md" by (rule Plt)
      moreover have "x \<in> set (next_addrs dir (A a))" using Pn x by auto
      ultimately have "reached_from md dir g' x (d + 1)"
        unfolding reached_from_def by (intro exI [of _ a] exI [of _ N]) (simp add: g'_def N_def)
      then show ?thesis using e xS xg xa unfolding gr' by (simp add: g'_def)
    qed
  qed
  have c5: "analysis n = analyze_address net order v \<and>
          ((v \<in> S \<and> depth n = 0) \<or> (v \<notin> S \<and> reached_from md dir (graph ?s') v (depth n)))"
    if vn: "graph ?s' v = Some n" for v n
  proof (cases "v = a")
    case True
    then have n: "n = N" using vn unfolding gr' by (simp add: g'_def)
    show ?thesis
      using head True n mono [of a d] unfolding gr' by (auto simp: N_def A_def)
  next
    case False
    then have "g v = Some n" using vn unfolding gr' by (simp add: g'_def)
    from iG [OF this] show ?thesis
      using mono unfolding gr' by (auto simp: A_def)
  qed
  show ?thesis
    unfolding bfs_inv_def using c1 c2 c3 c4 c5 by blast
qed

section \<open>Depths, known wallets, touchpoints and single entries\<close>

lemma inv_nonneg_init: "inv_nonneg (bfs_init seeds)"
  by (auto simp: inv_nonneg_def bfs_init_fields)

lemma inv_nonneg_step:
  assumes inv: "inv_nonneg s" and ne: "queue s \<noteq> []"
  shows "inv_nonneg (bfs_step net order md dir s)"
proof -
  obtain a d rest where q: "queue s = (a, d) # rest"
    using ne by (cases "queue s") auto
  have d0: "0 \<le> d" using inv q by (auto simp: inv_nonneg_def)
  show ?thesis
    using inv d0
    unfolding inv_nonneg_def
      bfs_step_Cons [where net = net and order = order and md = md and dir = dir, OF q]
    by (auto simp: q)
qed

lemma inv_known_init: "inv_known (lower ` set seeds) (bfs_init seeds)"
  by (simp add: inv_known_def bfs_init_fields)

lemma inv_known_step:
  assumes inv: "inv_known S s" and ne: "queue s \<noteq> []"
  shows "inv_known S (bfs_step net order md dir s)"
proof -
  obtain a d rest where q: "queue s = (a, d) # rest"
    using ne by (cases "queue s") auto
  show ?thesis
    using inv peers_added_props(4) [where net = net and order = order and md = md and dir = dir, OF q]
    unfolding inv_known_def
      bfs_step_Cons [where net = net and order = order and md = md and dir = dir, OF q]
    by auto
qed

lemma inv_once_init: "distinct (map lower seeds) \<Longrightarrow> inv_once (bfs_init seeds)"
  by (simp add: inv_once_def bfs_init_fields comp_def image_image)

lemma inv_once_step:
  assumes inv: "inv_once s" and ne: "queue s \<noteq> []"
  shows "inv_once (bfs_step net order md dir s)"
proof -
  obtain a d rest where q: "queue s = (a, d) # rest"
    using ne by (cases "queue s") auto
  define P where "P = peers_added net order md dir s"
  have Pd: "distinct P" and Pv: "set P \<inter> visited s = {}"
    using peers_added_props [where net = net and order = order and md = md and dir = dir, OF q]
    by (simp_all add: P_def)
  have iD: "distinct (map fst (queue s))" and iJ: "fst ` set (queue s) \<inter> dom (graph s) = {}"
    and iV: "visited s = dom (graph s) \<union> fst ` set (queue s)"
    using inv by (simp_all add: inv_once_def)
  have m: "map fst (map (\<lambda>x. (x, d + 1)) P) = P" by (simp add: comp_def)
  have a1: "a \<notin> fst ` set rest" using iD q by auto
  have a2: "a \<in> visited s" using iV q by auto
  have r1: "fst ` set rest \<subseteq> visited s" using iV q by auto
  have "distinct (map fst (rest @ map (\<lambda>x. (x, d + 1)) P))"
    using iD q Pd Pv r1 by (auto simp: m comp_def)
  moreover have "fst ` set (rest @ map (\<lambda>x. (x, d + 1)) P) \<inter> dom ((graph s)(a \<mapsto> n)) = {}" for n
    using iJ q a1 a2 Pv iV by (auto simp: image_Un image_image)
  moreover have "visited s \<union> set P =
      dom ((graph s)(a \<mapsto> n)) \<union> fst ` set (rest @ map (\<lambda>x. (x, d + 1)) P)" for n
    using iV q by (auto simp: image_Un image_image)
  ultimately show ?thesis
    unfolding inv_once_def
      bfs_step_Cons [where net = net and order = order and md = md and dir = dir, OF q]
      P_def [symmetric]
    by blast
qed

lemma inv_touch_init: "inv_touch md dir S (bfs_init seeds)"
  by (simp add: inv_touch_def bfs_init_fields)

lemma inv_touch_step:
  assumes inv: "inv_touch md dir S s" and kn: "inv_known S s" and ne: "queue s \<noteq> []"
  shows "inv_touch md dir S (bfs_step net order md dir s)"
proof -
  obtain a d rest where q: "queue s = (a, d) # rest"
    using ne by (cases "queue s") auto
  let ?s' = "bfs_step net order md dir s"
  let ?A = "analyze_address net order a"
  let ?N = "\<lparr>depth = d, analysis = ?A\<rparr>"
  have gr': "graph ?s' = (graph s)(a \<mapsto> ?N)"
    using bfs_step_Cons [where net = net and order = order and md = md and dir = dir, OF q] by simp
  from bfs_step_touchpoints [of net order md dir s] obtain ts where
    kyc: "kyc_touchpoints ?s' = kyc_touchpoints s @ ts" ..
  have kn': "inv_known S ?s'" using kn ne by (rule inv_known_step)
  have nv: "x \<notin> visited ?s'" if "known_wallet x = Some name" "x \<notin> S" for x name
    using kn' that by (auto simp: inv_known_def)
  have new1: "is_exchange_deposit ?A \<Longrightarrow> deposit_touchpoint a ?N \<in> set (kyc_touchpoints ?s')"
    using bfs_step_deposit [where net = net and order = order and md = md and dir = dir, OF q]
    by (simp add: deposit_touchpoint_def)
  have new2: "Direct_Touchpoint a name d x \<in> set (kyc_touchpoints ?s')"
    if "d < md" "x \<in> set (next_addrs dir ?A)" "known_wallet x = Some name" "x \<notin> S" for x name
    using bfs_step_direct [where net = net and order = order and md = md and dir = dir,
        OF q that(1) that(2) that(3) nv [OF that(3) that(4)]] .
  show ?thesis
    unfolding inv_touch_def
  proof (intro allI impI)
    fix v n assume vn: "graph ?s' v = Some n"
    show "(is_exchange_deposit (analysis n) \<longrightarrow> deposit_touchpoint v n \<in> set (kyc_touchpoints ?s')) \<and>
        (\<forall>x name. depth n < md \<and> x \<in> set (next_addrs dir (analysis n)) \<and>
            known_wallet x = Some name \<and> x \<notin> S \<longrightarrow>
            Direct_Touchpoint v name (depth n) x \<in> set (kyc_touchpoints ?s'))"
    proof (cases "v = a")
      case True
      then have n: "n = ?N" using vn gr' by simp
      show ?thesis unfolding n True using new1 new2 by auto
    next
      case False
      then have "graph s v = Some n" using vn gr' by simp
      with inv show ?thesis unfolding inv_touch_def kyc by auto
    qed
  qed
qed

lemma bfs_step_funpow_inv:
  assumes "P s" and step: "\<And>t. P t \<Longrightarrow> queue t \<noteq> [] \<Longrightarrow> P (bfs_step net order md dir t)"
  shows "P ((bfs_step net order md dir ^^ k) s)"
proof (induction k)
  case 0
  show ?case using assms(1) by simp
next
  case (Suc k)
  let ?t = "(bfs_step net order md dir ^^ k) s"
  show ?case
  proof (cases "queue ?t = []")
    case True
    then show ?thesis using Suc by (simp add: bfs_step_Nil)
  next
    case False
    then show ?thesis using step [OF Suc] by simp
  qed
qed

lemma bfs_loop_funpow:
  "\<exists>k. bfs_loop net order md dir s = (bfs_step net order md dir ^^ k) s"
proof (induction net order md dir s rule: bfs_loop.induct)
  case (1 net order md dir s)
  show ?case
  proof (cases "queue s = []")
    case True
    then have "bfs_loop net order md dir s = (bfs_step net order md dir ^^ 0) s"
      by (simp add: bfs_loop_Nil)
    then show ?thesis ..
  next
    case False
    from "1.IH" [OF False] obtain k where
      "bfs_loop net order md dir (bfs_step net order md dir s) =
         (bfs_step net order md dir ^^ k) (bfs_step net order md dir s)" ..
    then have "bfs_loop net order md dir s = (bfs_step net order md dir ^^ Suc k) s"
      using False by (simp add: bfs_loop_Cons funpow_swap1)
    then show ?thesis ..
  qed
qed

section \<open>The state at the end of the expansion\<close>

lemma bfs_final:
  shows "bfs_inv net order md dir (lower ` set seeds) (bfs_loop net order md dir (bfs_init seeds))"
    and "inv_nonneg (bfs_loop net order md dir (bfs_init seeds))"
    and "inv_known (lower ` set seeds) (bfs_loop net order md dir (bfs_init seeds))"
    and "inv_touch md dir (lower ` set seeds) (bfs_loop net order md dir (bfs_init seeds))"
    and "queue (bfs_loop net order md dir (bfs_init seeds)) = []"
proof -
  let ?S = "lower ` set seeds"
  let ?P = "\<lambda>s. bfs_inv net order md dir ?S s \<and> inv_nonneg s \<and> inv_known ?S s \<and> inv_touch md dir ?S s"
  have "?P (bfs_loop net order md dir (bfs_init seeds)) \<and>
        queue (bfs_loop net order md dir (bfs_init seeds)) = []"
  proof (rule bfs_loop_invariant)
    show "?P (bfs_init seeds)"
      by (simp add: bfs_inv_init inv_nonneg_init inv_known_init inv_touch_init)
  next
    fix t assume "?P t" "queue t \<noteq> []"
    then show "?P (bfs_step net order md dir t)"
      by (simp add: bfs_inv_step inv_nonneg_step inv_known_step inv_touch_step)
  qed
  then show "bfs_inv net order md dir (lower ` set seeds) (bfs_loop net order md dir (bfs_init seeds))"
    and "inv_nonneg (bfs_loop net order md dir (bfs_init seeds))"
    and "inv_known (lower ` set seeds) (bfs_loop net order md dir (bfs_init seeds))"
    and "inv_touch md dir (lower ` set seeds) (bfs_loop net order md dir (bfs_init seeds))"
    and "queue (bfs_loop net order md dir (bfs_init seeds)) = []"
    by simp_all
qed

lemma bfs_expand_fields:
  "nodes_graph (bfs_expand net order seeds md dir) = graph (bfs_loop net order md dir (bfs_init seeds))"
  "touchpoints (bfs_expand net order seeds md dir) =
     kyc_touchpoints (bfs_loop net order md dir (bfs_init seeds))"
  "total_addresses_discovered (bfs_expand net order seeds md dir) =
     card (visited (bfs_loop net order md dir (bfs_init seeds)))"
  by (simp_all add: bfs_expand_def Let_def)

lemma bfs_invD:
  assumes "bfs_inv net order md dir S s"
  shows "S \<subseteq> visited s"
    and "visited s = dom (graph s) \<union> fst ` set (queue s)"
    and "\<forall>v n. graph s v = Some n \<longrightarrow>
          analysis n = analyze_address net order v \<and>
          ((v \<in> S \<and> depth n = 0) \<or> (v \<notin> S \<and> reached_from md dir (graph s) v (depth n)))"
proof -
  from assms have c: "S \<subseteq> visited s \<and>
      visited s = dom (graph s) \<union> fst ` set (queue s) \<and>
      distinct (map fst (filter (\<lambda>e. fst e \<notin> S) (queue s))) \<and>
      (\<forall>e \<in> set (queue s).
          (fst e \<in> S \<and> snd e = 0) \<or>
          (fst e \<notin> S \<and> fst e \<notin> dom (graph s) \<and> reached_from md dir (graph s) (fst e) (snd e))) \<and>
      (\<forall>v n. graph s v = Some n \<longrightarrow>
          analysis n = analyze_address net order v \<and>
          ((v \<in> S \<and> depth n = 0) \<or> (v \<notin> S \<and> reached_from md dir (graph s) v (depth n))))"
    unfolding bfs_inv_def .
  from c show "S \<subseteq> visited s" by (elim conjE)
  from c show "visited s = dom (graph s) \<union> fst ` set (queue s)" by (elim conjE)
  from c show "\<forall>v n. graph s v = Some n \<longrightarrow>
          analysis n = analyze_address net order v \<and>
          ((v \<in> S \<and> depth n = 0) \<or> (v \<notin> S \<and> reached_from md dir (graph s) v (depth n)))"
    by (elim conjE)
qed

lemma bfs_final_visited:
  "visited (bfs_loop net order md dir (bfs_init seeds)) =
     dom (graph (bfs_loop net order md dir (bfs_init seeds)))"
proof -
  have "visited (bfs_loop net order md dir (bfs_init seeds)) =
     dom (graph (bfs_loop net order md dir (bfs_init seeds))) \<union>
     fst ` set (queue (bfs_loop net order md dir (bfs_init seeds)))"
    by (rule bfs_invD(2) [OF bfs_final(1)])
  then show ?thesis by (simp only: bfs_final(5) list.set image_empty Un_empty_right)
qed

lemma bfs_total_is_nodes:
  "total_addresses_discovered (bfs_expand net order seeds md dir) =
     card (dom (nodes_graph (bfs_expand net order seeds md dir)))"
  by (simp only: bfs_expand_fields bfs_final_visited)

lemma bfs_seeds_recorded:
  "a \<in> set seeds \<Longrightarrow> lower a \<in> dom (nodes_graph (bfs_expand net order seeds md dir))"
proof -
  assume a: "a \<in> set seeds"
  have "lower ` set seeds \<subseteq> visited (bfs_loop net order md dir (bfs_init seeds))"
    by (rule bfs_invD(1) [OF bfs_final(1)])
  then have "lower a \<in> visited (bfs_loop net order md dir (bfs_init seeds))" using a by blast
  then show ?thesis by (simp only: bfs_expand_fields bfs_final_visited)
qed

lemma bfs_node_facts:
  assumes "nodes_graph (bfs_expand net order seeds md dir) v = Some n"
  shows "analysis n = analyze_address net order v"
    and "(v \<in> lower ` set seeds \<and> depth n = 0) \<or>
         (v \<notin> lower ` set seeds \<and>
          reached_from md dir (nodes_graph (bfs_expand net order seeds md dir)) v (depth n))"
    and "0 \<le> depth n"
    and "v \<in> lower ` set seeds \<or> known_wallet v = None"
proof -
  let ?sf = "bfs_loop net order md dir (bfs_init seeds)"
  have ng: "nodes_graph (bfs_expand net order seeds md dir) = graph ?sf"
    by (rule bfs_expand_fields(1))
  have g: "graph ?sf v = Some n" using assms unfolding ng .
  have G: "\<forall>v n. graph ?sf v = Some n \<longrightarrow>
          analysis n = analyze_address net order v \<and>
          ((v \<in> lower ` set seeds \<and> depth n = 0) \<or>
           (v \<notin> lower ` set seeds \<and> reached_from md dir (graph ?sf) v (depth n)))"
    by (rule bfs_invD(3) [OF bfs_final(1)])
  from G [rule_format, OF g]
  show "analysis n = analyze_address net order v"
    and "(v \<in> lower ` set seeds \<and> depth n = 0) \<or>
         (v \<notin> lower ` set seeds \<and>
          reached_from md dir (nodes_graph (bfs_expand net order seeds md dir)) v (depth n))"
    unfolding ng by (rule conjunct1, rule conjunct2)
  have "inv_nonneg ?sf" by (rule bfs_final(2))
  then have "\<forall>v n. graph ?sf v = Some n \<longrightarrow> 0 \<le> depth n"
    unfolding inv_nonneg_def by (elim conjE)
  from this [rule_format, OF g] show "0 \<le> depth n" .
  have "v \<in> dom (graph ?sf)" using g by (rule domI)
  then have vv: "v \<in> visited ?sf" by (simp only: bfs_final_visited)
  have "inv_known (lower ` set seeds) ?sf" by (rule bfs_final(3))
  then have "\<forall>a \<in> visited ?sf. a \<in> lower ` set seeds \<or> known_wallet a = None"
    unfolding inv_known_def .
  from this [rule_format, OF vv] show "v \<in> lower ` set seeds \<or> known_wallet v = None" .
qed

section \<open>Depths and queue entries\<close>

text \<open>
  C8, as the claim states it, fails on a cycle: with a transfer from \<open>0xa\<close> to \<open>0xb\<close>
  and one back, \<^verbatim>\<open>trace_hops\<close> of multi\_hop\_tracer\_v2.py expands \<open>0xa\<close> at hop 0 and
  \<open>0xb\<close> at hop 1 and records both edges. The edge from \<open>0xb\<close> back to \<open>0xa\<close> leads
  from depth 1 to depth 0, not to depth 2.
\<close>

theorem C8_cycle_counterexample:
  "g_printed_hops (trace_hops_v2 Map.empty cycle_ledger ''0xa'' 3 (1 / 10) True) =
      [(0, ''0xa'', 1), (1, ''0xb'', 2)] \<and>
   map (\<lambda>e. (e_from e, e_to e)) (g_edges (trace_hops_v2 Map.empty cycle_ledger ''0xa'' 3 (1 / 10) True)) =
      [(''0xa'', ''0xb''), (''0xb'', ''0xa'')]"
  by code_simp

text \<open>
  C8, amended: for the edge by which an address is put on the queue the depths differ by
  one. Every node that \<^verbatim>\<open>bfs_expand\<close> records has a depth of at least 0; it is a seed at
  depth 0, or it is no seed and some recorded node one level up, below the depth limit,
  lists it among the peers followed in the requested direction. Edges to addresses
  already visited are recorded without this property.
\<close>

theorem C8_depth_of_enqueued:
  "nodes_graph (bfs_expand net order seeds md dir) v = Some n \<Longrightarrow>
     0 \<le> depth n \<and>
     ((v \<in> lower ` set seeds \<and> depth n = 0) \<or>
      (v \<notin> lower ` set seeds \<and>
       (\<exists>u m. nodes_graph (bfs_expand net order seeds md dir) u = Some m \<and>
              depth n = depth m + 1 \<and> depth m < md \<and>
              v \<in> set (next_addrs dir (analysis m)))))"
  using bfs_node_facts(2,3) [of net order seeds md dir v n]
  unfolding reached_from_def by blast

theorem C8_depth_of_enqueued_witness:
  "''0xcc'' \<notin> lower ` set [''0xAA''] \<and>
   map_option depth (nodes_graph (bfs_expand funnel_net (\<lambda>xs. xs) [''0xAA''] 1 ''both'') ''0xcc'') = Some 1 \<and>
   (\<exists>u m. nodes_graph (bfs_expand funnel_net (\<lambda>xs. xs) [''0xAA''] 1 ''both'') u = Some m \<and>
          depth (the (nodes_graph (bfs_expand funnel_net (\<lambda>xs. xs) [''0xAA''] 1 ''both'') ''0xcc'')) =
            depth m + 1 \<and>
          depth m < 1 \<and> ''0xcc'' \<in> set (next_addrs ''both'' (analysis m)))"
proof -
  let ?R = "bfs_expand funnel_net (\<lambda>xs. xs) [''0xAA''] 1 ''both''"
  have ns: "''0xcc'' \<notin> lower ` set [''0xAA'']" by code_simp
  have d: "map_option depth (nodes_graph ?R ''0xcc'') = Some 1" by code_simp
  then obtain n where n: "nodes_graph ?R ''0xcc'' = Some n" by auto
  from C8_depth_of_enqueued [OF n] ns
  have "\<exists>u m. nodes_graph ?R u = Some m \<and> depth n = depth m + 1 \<and> depth m < 1 \<and>
          ''0xcc'' \<in> set (next_addrs ''both'' (analysis m))"
    by blast
  then show ?thesis using ns d n by simp
qed

text \<open>
  C5, as the claim states it, fails for seeds that repeat once lower-cased: the loop that
  fills the queue does not look at the visited set, and the address stands on the queue
  twice.
\<close>

theorem C5_duplicate_seed_counterexample:
  "queue (bfs_init [''0xaa'', ''0xAA'']) = [(''0xaa'', 0), (''0xaa'', 0)] \<and>
   \<not> distinct (map fst (queue (bfs_init [''0xaa'', ''0xAA''])))"
  by code_simp

text \<open>
  C5, amended: when the lower-cased seeds are pairwise distinct, in every state of the
  run (after any number \<open>k\<close> of turns of the loop) no address stands on the queue twice
  and none that has a node in the graph stands on it again; the loop ends in such a state.
  For every seed list, the number of addresses reported as discovered equals the number
  of nodes of the graph. The witness is Scenario C: two seeds with a common peer, which
  is queued once and recorded once.
\<close>

theorem C5_single_queue_entry:
  "distinct (map lower seeds) \<Longrightarrow>
     distinct (map fst (queue ((bfs_step net order md dir ^^ k) (bfs_init seeds)))) \<and>
     fst ` set (queue ((bfs_step net order md dir ^^ k) (bfs_init seeds))) \<inter>
       dom (graph ((bfs_step net order md dir ^^ k) (bfs_init seeds))) = {} \<and>
     (\<exists>j. bfs_loop net order md dir (bfs_init seeds) = (bfs_step net order md dir ^^ j) (bfs_init seeds)) \<and>
     total_addresses_discovered (bfs_expand net order seeds md dir) =
       card (dom (nodes_graph (bfs_expand net order seeds md dir)))"
proof -
  assume d: "distinct (map lower seeds)"
  have "inv_once ((bfs_step net order md dir ^^ k) (bfs_init seeds))"
  proof (rule bfs_step_funpow_inv)
    show "inv_once (bfs_init seeds)" using d by (rule inv_once_init)
  next
    fix t assume "inv_once t" "queue t \<noteq> []"
    then show "inv_once (bfs_step net order md dir t)" by (rule inv_once_step)
  qed
  then have "distinct (map fst (queue ((bfs_step net order md dir ^^ k) (bfs_init seeds)))) \<and>
     fst ` set (queue ((bfs_step net order md dir ^^ k) (bfs_init seeds))) \<inter>
       dom (graph ((bfs_step net order md dir ^^ k) (bfs_init seeds))) = {}"
    unfolding inv_once_def by (elim conjE) (intro conjI)
  then show ?thesis
    using bfs_loop_funpow [of net order md dir "bfs_init seeds"]
      bfs_total_is_nodes [of net order seeds md dir]
    by blast
qed

theorem C5_single_queue_entry_witness:
  "distinct (map lower [''0xA1'', ''0xb2'']) \<and>
   queue ((bfs_step shared_peer_net (\<lambda>xs. xs) 2 ''out'' ^^ 2) (bfs_init [''0xA1'', ''0xb2''])) =
     [(''0xcc'', 1)] \<and>
   total_addresses_discovered (bfs_expand shared_peer_net (\<lambda>xs. xs) [''0xA1'', ''0xb2''] 2 ''out'') = 3 \<and>
   card (dom (nodes_graph (bfs_expand shared_peer_net (\<lambda>xs. xs) [''0xA1'', ''0xb2''] 2 ''out''))) = 3 \<and>
   map_option depth (nodes_graph (bfs_expand shared_peer_net (\<lambda>xs. xs) [''0xA1'', ''0xb2''] 2 ''out'') ''0xcc'')
     = Some 1"
proof -
  have d: "distinct (map lower [''0xA1'', ''0xb2''])" by code_simp
  have q: "queue ((bfs_step shared_peer_net (\<lambda>xs. xs) 2 ''out'' ^^ 2) (bfs_init [''0xA1'', ''0xb2''])) =
     [(''0xcc'', 1)]" by code_simp
  have t: "total_addresses_discovered (bfs_expand shared_peer_net (\<lambda>xs. xs) [''0xA1'', ''0xb2''] 2 ''out'') = 3"
    by code_simp
  have y: "map_option depth (nodes_graph (bfs_expand shared_peer_net (\<lambda>xs. xs) [''0xA1'', ''0xb2''] 2 ''out'') ''0xcc'')
     = Some 1" by code_simp
  from C5_single_queue_entry [OF d, where net = shared_peer_net and order = "\<lambda>xs. xs" and md = 2
      and dir = "''out''" and k = 2]
  have "total_addresses_discovered (bfs_expand shared_peer_net (\<lambda>xs. xs) [''0xA1'', ''0xb2''] 2 ''out'') =
       card (dom (nodes_graph (bfs_expand shared_peer_net (\<lambda>xs. xs) [''0xA1'', ''0xb2''] 2 ''out'')))"
    by (elim conjE)
  then show ?thesis using d q t y by simp
qed

section \<open>Failed fetches\<close>

lemma etherscan_no_failures:
  "etherscan_request (no_failures net) action a = etherscan_request net action a"
  by (simp add: etherscan_request_def no_failures_def split: response.splits)

lemma analyze_no_failures:
  "analyze_address (no_failures net) order a = analyze_address net order a"
  by (simp add: analyze_address_def get_transactions_def etherscan_no_failures)

lemma bfs_step_no_failures:
  "bfs_step (no_failures net) order md dir s = bfs_step net order md dir s"
  by (simp add: bfs_step_def analyze_no_failures split: list.splits prod.splits)

lemma bfs_loop_no_failures:
  "bfs_loop (no_failures net) order md dir s = bfs_loop net order md dir s"
proof (induction net order md dir s rule: bfs_loop.induct)
  case (1 net order md dir s)
  show ?case
  proof (cases "queue s = []")
    case True
    then show ?thesis by (simp add: bfs_loop_Nil)
  next
    case False
    then show ?thesis
      using "1.IH" [OF False] by (simp add: bfs_loop_Cons bfs_step_no_failures)
  qed
qed

lemma bfs_expand_no_failures:
  "bfs_expand (no_failures net) order seeds md dir = bfs_expand net order seeds md dir"
  by (simp add: bfs_expand_def bfs_loop_no_failures)

lemma analyze_failed:
  assumes "net ''txlist'' (lower a) = Raised" and "net ''tokentx'' (lower a) = Raised"
  shows "analyze_address net order a = empty_analysis order (lower a)"
proof -
  have n: "get_transactions net (lower a) ''normal'' = []"
    using assms(1) by (simp add: get_transactions_def etherscan_request_def lower_idem)
  have e: "get_transactions net (lower a) ''erc20'' = []"
    using assms(2) by (simp add: get_transactions_def etherscan_request_def lower_idem)
  show ?thesis
    by (simp add: analyze_address_def Let_def n e deposit_pattern_empty empty_analysis_def
          min_default_def max_default_def)
qed

text \<open>
  C2, as the claim states it, fails: no node carries a mark of a failed fetch. When every
  request raises, the node of the seed is the node of an address without transactions,
  and the whole result equals the result on the network that answers each of those
  requests with an empty successful reply.
\<close>

theorem C2_no_failure_mark_counterexample:
  "bfs_expand (\<lambda>action a. Raised) (\<lambda>xs. xs) [''0xaa''] 2 ''both'' =
   bfs_expand (no_failures (\<lambda>action a. Raised)) (\<lambda>xs. xs) [''0xaa''] 2 ''both'' \<and>
   no_failures (\<lambda>action a. Raised) ''txlist'' ''0xaa'' = Replied ''1'' [] \<and>
   no_failures (\<lambda>action a. Raised) ''tokentx'' ''0xaa'' = Replied ''1'' [] \<and>
   nodes_graph (bfs_expand (\<lambda>action a. Raised) (\<lambda>xs. xs) [''0xaa''] 2 ''both'') ''0xaa'' =
     Some \<lparr>depth = 0,
           analysis = \<lparr>an_address = ''0xaa'', is_exchange_deposit = False, exchange_name = None,
                       tx_count = 0, eth_in = 0, eth_out = 0, usdt_in = 0, usdt_out = 0,
                       connected_in = [], connected_out = [], first_tx = 0, last_tx = 0\<rparr>\<rparr>"
proof -
  have "nodes_graph (bfs_expand (\<lambda>action a. Raised) (\<lambda>xs. xs) [''0xaa''] 2 ''both'') ''0xaa'' =
     Some \<lparr>depth = 0,
           analysis = \<lparr>an_address = ''0xaa'', is_exchange_deposit = False, exchange_name = None,
                       tx_count = 0, eth_in = 0, eth_out = 0, usdt_in = 0, usdt_out = 0,
                       connected_in = [], connected_out = [], first_tx = 0, last_tx = 0\<rparr>\<rparr>"
    by code_simp
  moreover have "no_failures (\<lambda>action a. Raised) ''txlist'' ''0xaa'' = Replied ''1'' []"
    and "no_failures (\<lambda>action a. Raised) ''tokentx'' ''0xaa'' = Replied ''1'' []"
    by (simp_all add: no_failures_def)
  ultimately show ?thesis
    by (simp only: bfs_expand_no_failures simp_thms)
qed

text \<open>
  C2, amended: when both requests for an address raise, \<^verbatim>\<open>etherscan_request\<close> returns
  empty lists, and the node of the address, a seed at depth 0 or any recorded node, holds
  the analysis of an address without transactions: not an exchange deposit, no name, no
  peers. No exception leaves \<^verbatim>\<open>bfs_expand\<close>: it is a total function, its result equals
  the result on the network without failures, and every address it discovered has its
  node. A mark \<^verbatim>\<open>fetch_failed\<close> is not kept.
\<close>

theorem C2_failed_fetch_is_empty_node:
  "net ''txlist'' (lower v) = Raised \<Longrightarrow> net ''tokentx'' (lower v) = Raised \<Longrightarrow>
     (v \<in> set seeds \<longrightarrow>
        nodes_graph (bfs_expand net order seeds md dir) (lower v) =
          Some \<lparr>depth = 0, analysis = empty_analysis order (lower v)\<rparr>) \<and>
     (\<forall>n. nodes_graph (bfs_expand net order seeds md dir) v = Some n \<longrightarrow>
          analysis n = empty_analysis order (lower v)) \<and>
     bfs_expand net order seeds md dir = bfs_expand (no_failures net) order seeds md dir \<and>
     total_addresses_discovered (bfs_expand net order seeds md dir) =
       card (dom (nodes_graph (bfs_expand net order seeds md dir)))"
proof -
  assume f1: "net ''txlist'' (lower v) = Raised" and f2: "net ''tokentx'' (lower v) = Raised"
  let ?r = "bfs_expand net order seeds md dir"
  have a: "analyze_address net order v = empty_analysis order (lower v)"
    using f1 f2 by (rule analyze_failed)
  have al: "analyze_address net order (lower v) = empty_analysis order (lower v)"
    using f1 f2 analyze_failed [of net "lower v" order] by (simp add: lower_idem)
  have p1: "nodes_graph ?r (lower v) = Some \<lparr>depth = 0, analysis = empty_analysis order (lower v)\<rparr>"
    if "v \<in> set seeds"
  proof -
    from bfs_seeds_recorded [OF that] obtain n where n: "nodes_graph ?r (lower v) = Some n"
      by blast
    have "lower v \<in> lower ` set seeds" using that by blast
    with bfs_node_facts(1,2) [OF n] have "analysis n = analyze_address net order (lower v)"
      and "depth n = 0" by blast+
    then have "n = \<lparr>depth = 0, analysis = empty_analysis order (lower v)\<rparr>"
      using al by (cases n) simp
    then show ?thesis using n by simp
  qed
  have p2: "analysis n = empty_analysis order (lower v)" if "nodes_graph ?r v = Some n" for n
    using bfs_node_facts(1) [OF that] a by simp
  show ?thesis
    using p1 p2 bfs_expand_no_failures [of net order seeds md dir]
      bfs_total_is_nodes [of net order seeds md dir]
    by simp
qed

theorem C2_failed_fetch_is_empty_node_witness:
  "failing_interior ''txlist'' (lower ''0xcc'') = Raised \<and>
   failing_interior ''tokentx'' (lower ''0xcc'') = Raised \<and>
   nodes_graph (bfs_expand failing_interior (\<lambda>xs. xs) [''0xA1''] 2 ''out'') ''0xcc'' =
     Some \<lparr>depth = 1, analysis = empty_analysis (\<lambda>xs. xs) ''0xcc''\<rparr> \<and>
   map_option depth (nodes_graph (bfs_expand failing_interior (\<lambda>xs. xs) [''0xA1''] 2 ''out'') ''0xee'') = Some 2 \<and>
   total_addresses_discovered (bfs_expand failing_interior (\<lambda>xs. xs) [''0xA1''] 2 ''out'') = 4"
proof -
  let ?r = "bfs_expand failing_interior (\<lambda>xs. xs) [''0xA1''] 2 ''out''"
  have f1: "failing_interior ''txlist'' (lower ''0xcc'') = Raised"
    and f2: "failing_interior ''tokentx'' (lower ''0xcc'') = Raised" by code_simp+
  have d: "map_option depth (nodes_graph ?r ''0xcc'') = Some 1" by code_simp
  have e: "map_option depth (nodes_graph ?r ''0xee'') = Some 2" by code_simp
  have t: "total_addresses_discovered ?r = 4" by code_simp
  have lc: "lower ''0xcc'' = ''0xcc''" by code_simp
  from d obtain n where n: "nodes_graph ?r ''0xcc'' = Some n" and dn: "depth n = 1" by auto
  from C2_failed_fetch_is_empty_node [where net = failing_interior and v = "''0xcc''"
      and seeds = "[''0xA1'']" and order = "\<lambda>xs. xs" and md = 2 and dir = "''out''", OF f1 f2] n
  have "analysis n = empty_analysis (\<lambda>xs. xs) (lower ''0xcc'')" by blast
  then have "n = \<lparr>depth = 1, analysis = empty_analysis (\<lambda>xs. xs) ''0xcc''\<rparr>"
    using dn lc by (cases n) simp
  then show ?thesis using f1 f2 n e t by simp
qed

section \<open>Depth zero, and where traversal ends\<close>

lemma trace_loop_Nil: "t_queue s = [] \<Longrightarrow> trace_loop known bs dlimit min_eth verbose s = s"
  by (subst trace_loop.simps) simp

lemma trace_loop_Cons:
  "t_queue s \<noteq> [] \<Longrightarrow>
     trace_loop known bs dlimit min_eth verbose s =
       trace_loop known bs dlimit min_eth verbose (trace_step known bs dlimit min_eth verbose s)"
  by (subst trace_loop.simps) simp

lemma hops_loop_Nil: "hs_queue s = [] \<Longrightarrow> hops_loop known rpc dlimit min_eth s = s"
  by (subst hops_loop.simps) simp

lemma hops_loop_Cons:
  "hs_queue s \<noteq> [] \<Longrightarrow>
     hops_loop known rpc dlimit min_eth s =
       hops_loop known rpc dlimit min_eth (hops_step known rpc dlimit min_eth s)"
  by (subst hops_loop.simps) simp

lemma trace_hops_v2_depth0:
  "trace_hops_v2 known bs start_addr 0 min_eth verbose =
     \<lparr>g_start = start_addr, g_depth = 0, g_min_eth = min_eth, g_nodes = Map.empty, g_edges = [],
      g_endpoints = [], g_totals = zero_totals, g_printed_hops = []\<rparr>"
proof -
  have st: "trace_step known bs 0 min_eth verbose (trace_init start_addr) =
      (trace_init start_addr)\<lparr>t_queue := []\<rparr>"
    by (simp add: trace_step_def trace_init_def)
  have ne: "t_queue (trace_init start_addr) \<noteq> []" by (simp add: trace_init_def)
  have "trace_loop known bs 0 min_eth verbose (trace_init start_addr) =
      trace_loop known bs 0 min_eth verbose (trace_step known bs 0 min_eth verbose (trace_init start_addr))"
    by (rule trace_loop_Cons [OF ne])
  also have "\<dots> = trace_loop known bs 0 min_eth verbose ((trace_init start_addr)\<lparr>t_queue := []\<rparr>)"
    by (simp only: st)
  also have "\<dots> = (trace_init start_addr)\<lparr>t_queue := []\<rparr>"
    by (rule trace_loop_Nil) simp
  finally show ?thesis by (simp add: trace_hops_v2_def trace_init_def)
qed

lemma trace_hops_depth0:
  "trace_hops known rpc start_address 0 min_eth =
     \<lparr>hg_start = lower start_address, hg_depth = 0, hg_min_eth = min_eth, hg_hops = Map.empty,
      hg_endpoints = [], hg_totals = zero_totals\<rparr>"
proof -
  let ?s0 = "\<lparr>hs_visited = {}, hs_queue = [(lower start_address, 0, [lower start_address])],
              hs_hops = Map.empty, hs_endpoints = [], hs_totals = zero_totals\<rparr>"
  have st: "hops_step known rpc 0 min_eth ?s0 = ?s0\<lparr>hs_queue := [], hs_visited := {lower start_address}\<rparr>"
    by (simp add: hops_step_def)
  have ne: "hs_queue ?s0 \<noteq> []" by simp
  have "hops_loop known rpc 0 min_eth ?s0 = hops_loop known rpc 0 min_eth (hops_step known rpc 0 min_eth ?s0)"
    by (rule hops_loop_Cons [OF ne])
  also have "\<dots> = hops_loop known rpc 0 min_eth (?s0\<lparr>hs_queue := [], hs_visited := {lower start_address}\<rparr>)"
    by (simp only: st)
  also have "\<dots> = ?s0\<lparr>hs_queue := [], hs_visited := {lower start_address}\<rparr>"
    by (rule hops_loop_Nil) simp
  finally show ?thesis by (simp add: trace_hops_def)
qed

lemma bfs_depth0_nodes:
  "nodes_graph (bfs_expand net order seeds 0 dir) v =
     (if v \<in> lower ` set seeds then Some \<lparr>depth = 0, analysis = analyze_address net order v\<rparr>
      else None)"
proof (cases "nodes_graph (bfs_expand net order seeds 0 dir) v")
  case None
  have "v \<notin> lower ` set seeds"
  proof
    assume "v \<in> lower ` set seeds"
    then obtain a where "a \<in> set seeds" "v = lower a" by blast
    with bfs_seeds_recorded [of a seeds net order 0 dir] None show False by auto
  qed
  then show ?thesis using None by simp
next
  case (Some n)
  have "\<not> reached_from 0 dir (nodes_graph (bfs_expand net order seeds 0 dir)) v (depth n)"
  proof
    assume "reached_from 0 dir (nodes_graph (bfs_expand net order seeds 0 dir)) v (depth n)"
    then obtain u m where m: "nodes_graph (bfs_expand net order seeds 0 dir) u = Some m"
      and lt: "depth m < 0" unfolding reached_from_def by blast
    from bfs_node_facts(3) [OF m] lt show False by simp
  qed
  with bfs_node_facts(1,2) [OF Some] have "v \<in> lower ` set seeds" "depth n = 0"
    "analysis n = analyze_address net order v" by blast+
  then have "n = \<lparr>depth = 0, analysis = analyze_address net order v\<rparr>" by (cases n) simp
  then show ?thesis using Some \<open>v \<in> lower ` set seeds\<close> by simp
qed

text \<open>
  C3, as the claim states it, fails for \<^verbatim>\<open>trace_hops\<close>: with a depth of 0 the only
  queue entry is dropped by the test \<^verbatim>\<open>current_depth >= depth\<close> before the address is
  fetched, and the graph has no node at all.
\<close>

theorem C3_tracer_depth_zero_counterexample:
  "g_nodes (trace_hops_v2 Map.empty (\<lambda>a. Some []) ''0xaa'' 0 (1 / 10) True) ''0xaa'' = None \<and>
   addresses_traced (g_totals (trace_hops_v2 Map.empty (\<lambda>a. Some []) ''0xaa'' 0 (1 / 10) True)) = 0"
  by code_simp

text \<open>
  C3, amended: with a maximal depth of 0, \<^verbatim>\<open>bfs_expand\<close> returns one node per
  lower-cased seed, at depth 0 with the analysis of that seed, and no other node; the two
  \<^verbatim>\<open>trace_hops\<close> return a graph without nodes, edges and endpoints.
\<close>

theorem C3_depth_zero:
  "nodes_graph (bfs_expand net order seeds 0 dir) =
     (\<lambda>v. if v \<in> lower ` set seeds
          then Some \<lparr>depth = 0, analysis = analyze_address net order v\<rparr> else None) \<and>
   total_addresses_discovered (bfs_expand net order seeds 0 dir) = card (lower ` set seeds) \<and>
   g_nodes (trace_hops_v2 known bs start_addr 0 min_eth verbose) = Map.empty \<and>
   g_edges (trace_hops_v2 known bs start_addr 0 min_eth verbose) = [] \<and>
   g_endpoints (trace_hops_v2 known bs start_addr 0 min_eth verbose) = [] \<and>
   hg_hops (trace_hops known' rpc start_addr 0 min_eth) = Map.empty \<and>
   hg_endpoints (trace_hops known' rpc start_addr 0 min_eth) = []"
proof -
  have g: "nodes_graph (bfs_expand net order seeds 0 dir) =
     (\<lambda>v. if v \<in> lower ` set seeds
          then Some \<lparr>depth = 0, analysis = analyze_address net order v\<rparr> else None)"
    by (rule ext) (rule bfs_depth0_nodes)
  have "dom (nodes_graph (bfs_expand net order seeds 0 dir)) = lower ` set seeds"
    unfolding g by (auto split: if_splits)
  then have t: "total_addresses_discovered (bfs_expand net order seeds 0 dir) = card (lower ` set seeds)"
    by (simp add: bfs_total_is_nodes)
  show ?thesis
    using g t by (simp add: trace_hops_v2_depth0 trace_hops_depth0)
qed

text \<open>
  C1, as the claim states it, fails in \<^verbatim>\<open>bfs_expand\<close>: the seed \<open>0xaa\<close> receives from
  \<open>0xcc\<close> and sweeps to a Binance hot wallet, so it is classified as an exchange deposit;
  its peer \<open>0xcc\<close> is put on the queue all the same and gets a node at depth 1.
\<close>

theorem C1_deposit_peers_counterexample:
  "is_exchange_deposit
      (analysis (the (nodes_graph (bfs_expand funnel_net (\<lambda>xs. xs) [''0xAA''] 1 ''both'') ''0xaa''))) \<and>
   connected_in
      (analysis (the (nodes_graph (bfs_expand funnel_net (\<lambda>xs. xs) [''0xAA''] 1 ''both'') ''0xaa'')))
      = [''0xcc''] \<and>
   map_option depth (nodes_graph (bfs_expand funnel_net (\<lambda>xs. xs) [''0xAA''] 1 ''both'') ''0xcc'') = Some 1"
  by code_simp

text \<open>
  C1, amended: traversal ends at the addresses of the known hot wallet table. Every node
  of the graph is a seed or is outside the table; a node classified as an exchange deposit
  has its touchpoint entry; and for every peer of a node below the depth limit that is in
  the table and is no seed, the peer has no node (it is never put on the queue) and a
  direct touchpoint entry for the node names it. The peers of a node classified as an
  exchange deposit are still followed.
\<close>

theorem C1_known_wallets_end_traversal:
  "nodes_graph (bfs_expand net order seeds md dir) v = Some n \<Longrightarrow>
     (v \<in> lower ` set seeds \<or> known_wallet v = None) \<and>
     (is_exchange_deposit (analysis n) \<longrightarrow>
        deposit_touchpoint v n \<in> set (touchpoints (bfs_expand net order seeds md dir))) \<and>
     (\<forall>x name. depth n < md \<and> x \<in> set (next_addrs dir (analysis n)) \<and>
         known_wallet x = Some name \<and> x \<notin> lower ` set seeds \<longrightarrow>
         nodes_graph (bfs_expand net order seeds md dir) x = None \<and>
         Direct_Touchpoint v name (depth n) x \<in> set (touchpoints (bfs_expand net order seeds md dir)))"
proof -
  assume vn: "nodes_graph (bfs_expand net order seeds md dir) v = Some n"
  let ?r = "bfs_expand net order seeds md dir"
  let ?sf = "bfs_loop net order md dir (bfs_init seeds)"
  have g: "graph ?sf v = Some n" using vn by (simp only: bfs_expand_fields)
  have "inv_touch md dir (lower ` set seeds) ?sf" by (rule bfs_final(4))
  then have T: "\<forall>v n. graph ?sf v = Some n \<longrightarrow>
        (is_exchange_deposit (analysis n) \<longrightarrow> deposit_touchpoint v n \<in> set (kyc_touchpoints ?sf)) \<and>
        (\<forall>x name. depth n < md \<and> x \<in> set (next_addrs dir (analysis n)) \<and>
            known_wallet x = Some name \<and> x \<notin> lower ` set seeds \<longrightarrow>
            Direct_Touchpoint v name (depth n) x \<in> set (kyc_touchpoints ?sf))"
    unfolding inv_touch_def .
  from T [rule_format, OF g]
  have t1: "is_exchange_deposit (analysis n) \<longrightarrow> deposit_touchpoint v n \<in> set (touchpoints ?r)"
    and t2: "\<forall>x name. depth n < md \<and> x \<in> set (next_addrs dir (analysis n)) \<and>
            known_wallet x = Some name \<and> x \<notin> lower ` set seeds \<longrightarrow>
            Direct_Touchpoint v name (depth n) x \<in> set (touchpoints ?r)"
    unfolding bfs_expand_fields by (rule conjunct1, rule conjunct2)
  have k: "nodes_graph ?r x = None" if "known_wallet x = Some name" "x \<notin> lower ` set seeds" for x name
  proof (cases "nodes_graph ?r x")
    case None
    then show ?thesis .
  next
    case (Some m)
    from bfs_node_facts(4) [OF Some] that show ?thesis by simp
  qed
  show ?thesis
    using bfs_node_facts(4) [OF vn] t1 t2 k by blast
qed

theorem C1_known_wallets_end_traversal_witness:
  "map_option depth (nodes_graph (bfs_expand funnel_net (\<lambda>xs. xs) [''0xAA''] 1 ''both'') ''0xaa'') = Some 0 \<and>
   nodes_graph (bfs_expand funnel_net (\<lambda>xs. xs) [''0xAA''] 1 ''both'')
      ''0x28c6c06298d514db089934071355e5743bf21d60'' = None \<and>
   Direct_Touchpoint ''0xaa'' ''Binance 14'' 0 ''0x28c6c06298d514db089934071355e5743bf21d60''
      \<in> set (touchpoints (bfs_expand funnel_net (\<lambda>xs. xs) [''0xAA''] 1 ''both'')) \<and>
   Deposit_Touchpoint ''0xaa'' (Some ''Binance 14'') 0 0 2
      \<in> set (touchpoints (bfs_expand funnel_net (\<lambda>xs. xs) [''0xAA''] 1 ''both''))"
proof -
  let ?r = "bfs_expand funnel_net (\<lambda>xs. xs) [''0xAA''] 1 ''both''"
  let ?b = "''0x28c6c06298d514db089934071355e5743bf21d60''"
  have d: "map_option depth (nodes_graph ?r ''0xaa'') = Some 0" by code_simp
  then obtain n where n: "nodes_graph ?r ''0xaa'' = Some n" and dn: "depth n = 0" by auto
  have an: "analysis n = analyze_address funnel_net (\<lambda>xs. xs) ''0xaa''"
    by (rule bfs_node_facts(1) [OF n])
  have x: "?b \<in> set (next_addrs ''both'' (analyze_address funnel_net (\<lambda>xs. xs) ''0xaa''))"
    by code_simp
  have kw: "known_wallet ?b = Some ''Binance 14''" by code_simp
  have ns: "?b \<notin> lower ` set [''0xAA'']" by code_simp
  have dep: "is_exchange_deposit (analyze_address funnel_net (\<lambda>xs. xs) ''0xaa'')" by code_simp
  have tp: "deposit_touchpoint ''0xaa'' \<lparr>depth = 0, analysis = analyze_address funnel_net (\<lambda>xs. xs) ''0xaa''\<rparr>
      = Deposit_Touchpoint ''0xaa'' (Some ''Binance 14'') 0 0 2" by code_simp
  have neq: "n = \<lparr>depth = 0, analysis = analyze_address funnel_net (\<lambda>xs. xs) ''0xaa''\<rparr>"
    using an dn by (cases n) simp
  from C1_known_wallets_end_traversal [OF n]
  have c1: "is_exchange_deposit (analysis n) \<longrightarrow> deposit_touchpoint ''0xaa'' n \<in> set (touchpoints ?r)"
    and c2: "\<forall>x name. depth n < 1 \<and> x \<in> set (next_addrs ''both'' (analysis n)) \<and>
         known_wallet x = Some name \<and> x \<notin> lower ` set [''0xAA''] \<longrightarrow>
         nodes_graph ?r x = None \<and> Direct_Touchpoint ''0xaa'' name (depth n) x \<in> set (touchpoints ?r)"
    by blast+
  from c1 dep an have "deposit_touchpoint ''0xaa'' n \<in> set (touchpoints ?r)" by simp
  then have r1: "Deposit_Touchpoint ''0xaa'' (Some ''Binance 14'') 0 0 2 \<in> set (touchpoints ?r)"
    unfolding neq tp .
  from c2 [rule_format, of ?b "''Binance 14''"] x kw ns an dn
  have r2: "nodes_graph ?r ?b = None \<and> Direct_Touchpoint ''0xaa'' ''Binance 14'' 0 ?b \<in> set (touchpoints ?r)"
    by simp
  show ?thesis using d r1 r2 by simp
qed

end
